theory Spec2Isabelle
  imports Main "HOL-Library.Multiset"
begin

section \<open>Data model\<close>

text \<open>
  A timestamp is the string \<^verbatim>\<open>new Date().toISOString()\<close> returns. The code only stores it,
  copies it and compares it through \<^verbatim>\<open>new Date(s)\<close>, which gives back the millisecond
  count the string was printed from; the model keeps that count.
\<close>

type_synonym timestamp = nat

text \<open>
  The todo object. The POST handler and both seed lists build it with the four fields
  \<^verbatim>\<open>id\<close>, \<^verbatim>\<open>text\<close>, \<^verbatim>\<open>completed\<close>, \<^verbatim>\<open>createdAt\<close>;
  \<^verbatim>\<open>updatedAt\<close> is absent (\<open>None\<close>) until some code path sets it.
\<close>

record todo =
  id_t :: string
  text_t :: string
  completed :: bool
  createdAt :: timestamp
  updatedAt :: "timestamp option"

text \<open>The \<^verbatim>\<open>updates\<close> argument of updateTodo: each field may be \<^verbatim>\<open>undefined\<close>.\<close>

record updates =
  u_text :: "string option"
  u_completed :: "bool option"

text \<open>The object getStats returns.\<close>

record stats =
  total :: nat
  completed_s :: nat
  pending :: nat

datatype error = RedisNotConnected

section \<open>Array.prototype.sort with a comparator\<close>

text \<open>
  \<^verbatim>\<open>xs.sort(cmp)\<close> is a stable sort: \<open>a\<close> ends up before \<open>b\<close> when \<open>cmp a b < 0\<close>, and
  elements that compare equal keep their order. Both listings use the comparator
  \<^verbatim>\<open>(a, b) => new Date(b.createdAt) - new Date(a.createdAt)\<close>.
\<close>

fun insert_cmp :: "('a \<Rightarrow> 'a \<Rightarrow> int) \<Rightarrow> 'a \<Rightarrow> 'a list \<Rightarrow> 'a list" where
  "insert_cmp cmp x [] = [x]"
| "insert_cmp cmp x (y # ys) =
     (if cmp x y \<le> 0 then x # y # ys else y # insert_cmp cmp x ys)"

definition js_sort :: "('a \<Rightarrow> 'a \<Rightarrow> int) \<Rightarrow> 'a list \<Rightarrow> 'a list" where
  "js_sort cmp xs = foldr (insert_cmp cmp) xs []"

definition newest_first :: "todo \<Rightarrow> todo \<Rightarrow> int" where
  "newest_first a b = int (createdAt b) - int (createdAt a)"

section \<open>The Redis client, as redis-service.js uses it\<close>

text \<open>
  The service touches one SET, stored at \<^verbatim>\<open>todos:all\<close>, and one HASH per todo, stored at
  \<^verbatim>\<open>todo:<id>\<close>. A hash is only ever created by createTodo's \<^verbatim>\<open>hSet\<close>, which writes
  \<^verbatim>\<open>id\<close>, \<^verbatim>\<open>text\<close>, \<^verbatim>\<open>completed\<close> and \<^verbatim>\<open>createdAt\<close> together, and no code removes a
  single field; so a stored hash has these four fields and may have \<^verbatim>\<open>updatedAt\<close>.
  \<^verbatim>\<open>completed\<close> is stored as the string \<^verbatim>\<open>"true"\<close> or \<^verbatim>\<open>"false"\<close>.
\<close>

record todo_hash =
  h_id :: string
  h_text :: string
  h_completed :: string
  h_createdAt :: timestamp
  h_updatedAt :: "timestamp option"

text \<open>The field-value object handed to \<^verbatim>\<open>hSet\<close>; a field left out is \<open>None\<close>.\<close>

record hash_fields =
  f_id :: "string option"
  f_text :: "string option"
  f_completed :: "string option"
  f_createdAt :: "timestamp option"
  f_updatedAt :: "timestamp option"

text \<open>
  The database behind the client: the members of the SET at \<^verbatim>\<open>todos:all\<close> (a list
  without repetitions; Redis promises no order for \<^verbatim>\<open>SMEMBERS\<close>, the model returns
  insertion order) and the hashes by key (\<open>None\<close>: the key does not exist).
\<close>

record redis_db =
  todos_all :: "string list"
  hashes :: "string \<Rightarrow> todo_hash option"

definition TODOS_KEY :: string where
  "TODOS_KEY = ''todos:all''"

definition TODO_PREFIX :: string where
  "TODO_PREFIX = ''todo:''"

definition sMembers :: "redis_db \<Rightarrow> string list" where
  "sMembers db = todos_all db"

definition sAdd :: "string \<Rightarrow> redis_db \<Rightarrow> redis_db" where
  "sAdd m db = (if m \<in> set (todos_all db) then db
                else db\<lparr>todos_all := todos_all db @ [m]\<rparr>)"

definition sRem :: "string \<Rightarrow> redis_db \<Rightarrow> redis_db" where
  "sRem m db = db\<lparr>todos_all := removeAll m (todos_all db)\<rparr>"

definition hGetAll :: "string \<Rightarrow> redis_db \<Rightarrow> todo_hash option" where
  "hGetAll key db = hashes db key"

definition exists_key :: "string \<Rightarrow> redis_db \<Rightarrow> bool" where
  "exists_key key db = (hashes db key \<noteq> None)"

definition del :: "string \<Rightarrow> redis_db \<Rightarrow> redis_db" where
  "del key db = db\<lparr>hashes := (hashes db)(key := None)\<rparr>"

definition merge_fields :: "todo_hash \<Rightarrow> hash_fields \<Rightarrow> todo_hash" where
  "merge_fields h fs =
     \<lparr>h_id = (case f_id fs of Some v \<Rightarrow> v | None \<Rightarrow> h_id h),
      h_text = (case f_text fs of Some v \<Rightarrow> v | None \<Rightarrow> h_text h),
      h_completed = (case f_completed fs of Some v \<Rightarrow> v | None \<Rightarrow> h_completed h),
      h_createdAt = (case f_createdAt fs of Some v \<Rightarrow> v | None \<Rightarrow> h_createdAt h),
      h_updatedAt = (case f_updatedAt fs of Some v \<Rightarrow> Some v | None \<Rightarrow> h_updatedAt h)\<rparr>"

definition new_hash :: "hash_fields \<Rightarrow> todo_hash option" where
  "new_hash fs =
     (case (f_id fs, f_text fs, f_completed fs, f_createdAt fs) of
        (Some i, Some t, Some c, Some ca) \<Rightarrow>
          Some \<lparr>h_id = i, h_text = t, h_completed = c, h_createdAt = ca,
                h_updatedAt = f_updatedAt fs\<rparr>
      | _ \<Rightarrow> None)"

text \<open>
  \<^verbatim>\<open>HSET key field value ...\<close> overwrites the given fields and keeps the others; on a
  missing key it creates the hash. The service calls it on a missing key only from
  createTodo, with the four fields; updateTodo calls it after \<^verbatim>\<open>exists\<close> has answered 1.
  The last branch (a new hash without the four fields) is therefore never taken.
\<close>

definition hSet :: "string \<Rightarrow> hash_fields \<Rightarrow> redis_db \<Rightarrow> redis_db" where
  "hSet key fs db =
     (case hashes db key of
        Some h \<Rightarrow> db\<lparr>hashes := (hashes db)(key \<mapsto> merge_fields h fs)\<rparr>
      | None \<Rightarrow>
          (case new_hash fs of
             Some h \<Rightarrow> db\<lparr>hashes := (hashes db)(key \<mapsto> h)\<rparr>
           | None \<Rightarrow> db))"

section \<open>RedisService (redis-service.js)\<close>

record RedisService =
  isConnected :: bool
  client :: redis_db

definition bool_toString :: "bool \<Rightarrow> string" where
  "bool_toString b = (if b then ''true'' else ''false'')"

text \<open>
  The object built from \<^verbatim>\<open>todoData\<close> in getAllTodos and getTodoById:
  \<^verbatim>\<open>updatedAt: todoData.updatedAt || todoData.createdAt\<close>.
\<close>

definition todo_of_hash :: "todo_hash \<Rightarrow> todo" where
  "todo_of_hash h =
     \<lparr>id_t = h_id h, text_t = h_text h, completed = (h_completed h = ''true''),
      createdAt = h_createdAt h,
      updatedAt = Some (case h_updatedAt h of Some u \<Rightarrow> u | None \<Rightarrow> h_createdAt h)\<rparr>"

text \<open>
  The loop of getAllTodos over the ids of the SET: \<^verbatim>\<open>if (todoData && todoData.id)\<close> keeps
  the entry, anything else (no hash, or an empty \<^verbatim>\<open>id\<close>) is skipped.
\<close>

fun fetch_todos :: "redis_db \<Rightarrow> string list \<Rightarrow> todo list" where
  "fetch_todos db [] = []"
| "fetch_todos db (i # ids) =
     (case hGetAll (TODO_PREFIX @ i) db of
        Some h \<Rightarrow> (if h_id h \<noteq> [] then todo_of_hash h # fetch_todos db ids
                   else fetch_todos db ids)
      | None \<Rightarrow> fetch_todos db ids)"

definition RedisService_getAllTodos :: "RedisService \<Rightarrow> error + todo list" where
  "RedisService_getAllTodos r =
     (if \<not> isConnected r then Inl RedisNotConnected
      else let todoIds = sMembers (client r) in
        if todoIds = [] then Inr []
        else Inr (js_sort newest_first (fetch_todos (client r) todoIds)))"

definition RedisService_getTodoById :: "RedisService \<Rightarrow> string \<Rightarrow> error + todo option" where
  "RedisService_getTodoById r i =
     (if \<not> isConnected r then Inl RedisNotConnected
      else case hGetAll (TODO_PREFIX @ i) (client r) of
             None \<Rightarrow> Inr None
           | Some h \<Rightarrow> (if h_id h = [] then Inr None else Inr (Some (todo_of_hash h))))"

definition RedisService_createTodo ::
  "RedisService \<Rightarrow> todo \<Rightarrow> error + (todo \<times> RedisService)" where
  "RedisService_createTodo r t =
     (if \<not> isConnected r then Inl RedisNotConnected
      else let todoKey = TODO_PREFIX @ id_t t;
               db1 = hSet todoKey
                       \<lparr>f_id = Some (id_t t), f_text = Some (text_t t),
                        f_completed = Some (bool_toString (completed t)),
                        f_createdAt = Some (createdAt t), f_updatedAt = None\<rparr>
                       (client r);
               db2 = sAdd (id_t t) db1
           in Inr (t, r\<lparr>client := db2\<rparr>))"

text \<open>
  updateTodo reads the current todo after the \<^verbatim>\<open>exists\<close> test and does not use it; the
  read is kept because it can throw. The returned todo is read back after the write.
\<close>

definition RedisService_updateTodo ::
  "RedisService \<Rightarrow> string \<Rightarrow> updates \<Rightarrow> timestamp \<Rightarrow> error + (todo option \<times> RedisService)" where
  "RedisService_updateTodo r i u now =
     (if \<not> isConnected r then Inl RedisNotConnected
      else let todoKey = TODO_PREFIX @ i in
        if \<not> exists_key todoKey (client r) then Inr (None, r)
        else case RedisService_getTodoById r i of
               Inl e \<Rightarrow> Inl e
             | Inr currentTodo \<Rightarrow>
                 let updateData =
                       \<lparr>f_id = None, f_text = u_text u,
                        f_completed = map_option bool_toString (u_completed u),
                        f_createdAt = None, f_updatedAt = Some now\<rparr>;
                     r1 = r\<lparr>client := hSet todoKey updateData (client r)\<rparr>
                 in case RedisService_getTodoById r1 i of
                      Inl e \<Rightarrow> Inl e
                    | Inr res \<Rightarrow> Inr (res, r1))"

definition RedisService_deleteTodo ::
  "RedisService \<Rightarrow> string \<Rightarrow> error + (todo option \<times> RedisService)" where
  "RedisService_deleteTodo r i =
     (if \<not> isConnected r then Inl RedisNotConnected
      else let todoKey = TODO_PREFIX @ i in
        case RedisService_getTodoById r i of
          Inl e \<Rightarrow> Inl e
        | Inr None \<Rightarrow> Inr (None, r)
        | Inr (Some t) \<Rightarrow>
            Inr (Some t, r\<lparr>client := sRem i (del todoKey (client r))\<rparr>))"

definition stats_of :: "todo list \<Rightarrow> stats" where
  "stats_of todos =
     \<lparr>total = length todos,
      completed_s = length (filter (\<lambda>t. completed t) todos),
      pending = length (filter (\<lambda>t. \<not> completed t) todos)\<rparr>"

definition RedisService_getStats :: "RedisService \<Rightarrow> error + stats" where
  "RedisService_getStats r =
     (if \<not> isConnected r then Inl RedisNotConnected
      else case RedisService_getAllTodos r of
             Inl e \<Rightarrow> Inl e
           | Inr todos \<Rightarrow> Inr (stats_of todos))"

text \<open>
  The two default todos of initializeDefaultTodos. Their ids come from \<^verbatim>\<open>uuid.v4()\<close> and
  their timestamps from the clock; both are arguments here.
\<close>

definition redis_defaultTodos :: "string \<Rightarrow> timestamp \<Rightarrow> string \<Rightarrow> timestamp \<Rightarrow> todo list" where
  "redis_defaultTodos u1 t1 u2 t2 =
     [\<lparr>id_t = u1, text_t = ''Welcome to your DevOps To-Do App with Redis!'',
       completed = False, createdAt = t1, updatedAt = None\<rparr>,
      \<lparr>id_t = u2, text_t = ''Set up CI/CD pipeline with Redis database'',
       completed = True, createdAt = t2, updatedAt = None\<rparr>]"

text \<open>
  The \<^verbatim>\<open>for (const todo of defaultTodos)\<close> loop inside the \<^verbatim>\<open>try\<close> of
  initializeDefaultTodos, which catches and logs every error: a throw ends the loop and
  keeps the todos created before it (createTodo throws only at its first line, before
  any write). A throw of getAllTodos leaves the state as it was.
\<close>

fun create_each_caught :: "RedisService \<Rightarrow> todo list \<Rightarrow> RedisService" where
  "create_each_caught r [] = r"
| "create_each_caught r (t # ts) =
     (case RedisService_createTodo r t of
        Inl e \<Rightarrow> r
      | Inr (_, r1) \<Rightarrow> create_each_caught r1 ts)"

definition initializeDefaultTodos ::
  "string \<Rightarrow> timestamp \<Rightarrow> string \<Rightarrow> timestamp \<Rightarrow> RedisService \<Rightarrow> RedisService" where
  "initializeDefaultTodos u1 t1 u2 t2 r =
     (case RedisService_getAllTodos r of
        Inl e \<Rightarrow> r
      | Inr existingTodos \<Rightarrow>
          if length existingTodos = 0
          then create_each_caught r (redis_defaultTodos u1 t1 u2 t2)
          else r)"

text \<open>
  connect: \<open>reachable\<close> says whether \<^verbatim>\<open>client.connect()\<close> resolves (the \<^verbatim>\<open>connect\<close> event
  has then set \<^verbatim>\<open>isConnected\<close>) or throws into the \<^verbatim>\<open>catch\<close>. The result is the boolean
  connect returns and the service afterwards.
\<close>

definition connect ::
  "bool \<Rightarrow> string \<Rightarrow> timestamp \<Rightarrow> string \<Rightarrow> timestamp \<Rightarrow> RedisService \<Rightarrow> bool \<times> RedisService" where
  "connect reachable u1 t1 u2 t2 r =
     (if reachable
      then (True, initializeDefaultTodos u1 t1 u2 t2 (r\<lparr>isConnected := True\<rparr>))
      else (False, r\<lparr>isConnected := False\<rparr>))"

section \<open>TodoService, the facade of the server\<close>

record service =
  useRedis :: bool
  inMemoryTodos :: "todo list"
  redisService :: RedisService

text \<open>The initial value of \<^verbatim>\<open>inMemoryTodos\<close>.\<close>

definition initial_inMemoryTodos :: "string \<Rightarrow> timestamp \<Rightarrow> string \<Rightarrow> timestamp \<Rightarrow> todo list" where
  "initial_inMemoryTodos u1 t1 u2 t2 =
     [\<lparr>id_t = u1, text_t = ''Welcome to your DevOps To-Do App!'',
       completed = False, createdAt = t1, updatedAt = None\<rparr>,
      \<lparr>id_t = u2, text_t = ''Set up CI/CD pipeline'',
       completed = True, createdAt = t2, updatedAt = None\<rparr>]"

text \<open>\<^verbatim>\<open>xs.findIndex(p)\<close>: the first index whose element satisfies \<open>p\<close>; \<open>None\<close> is \<^verbatim>\<open>-1\<close>.\<close>

fun findIndex :: "('a \<Rightarrow> bool) \<Rightarrow> 'a list \<Rightarrow> nat option" where
  "findIndex p [] = None"
| "findIndex p (x # xs) = (if p x then Some 0 else map_option Suc (findIndex p xs))"

text \<open>
  getAllTodos sorts \<^verbatim>\<open>inMemoryTodos\<close> in place and returns that same array, so the sorted
  order is also the new state.
\<close>

definition TodoService_getAllTodos :: "service \<Rightarrow> error + (todo list \<times> service)" where
  "TodoService_getAllTodos s =
     (if useRedis s
      then (case RedisService_getAllTodos (redisService s) of
              Inl e \<Rightarrow> Inl e
            | Inr todos \<Rightarrow> Inr (todos, s))
      else let todos = js_sort newest_first (inMemoryTodos s)
           in Inr (todos, s\<lparr>inMemoryTodos := todos\<rparr>))"

definition TodoService_getTodoById :: "service \<Rightarrow> string \<Rightarrow> error + todo option" where
  "TodoService_getTodoById s i =
     (if useRedis s then RedisService_getTodoById (redisService s) i
      else Inr (find (\<lambda>t. id_t t = i) (inMemoryTodos s)))"

definition TodoService_createTodo :: "service \<Rightarrow> todo \<Rightarrow> error + (todo \<times> service)" where
  "TodoService_createTodo s t =
     (if useRedis s
      then (case RedisService_createTodo (redisService s) t of
              Inl e \<Rightarrow> Inl e
            | Inr (t1, r1) \<Rightarrow> Inr (t1, s\<lparr>redisService := r1\<rparr>))
      else Inr (t, s\<lparr>inMemoryTodos := inMemoryTodos s @ [t]\<rparr>))"

text \<open>
  The assignments updateTodo makes to the element it found: \<^verbatim>\<open>text\<close> and \<^verbatim>\<open>completed\<close>
  when the update carries them, \<^verbatim>\<open>updatedAt\<close> always.
\<close>

definition apply_updates :: "todo \<Rightarrow> updates \<Rightarrow> timestamp \<Rightarrow> todo" where
  "apply_updates t u now =
     (let t1 = (case u_text u of Some x \<Rightarrow> t\<lparr>text_t := x\<rparr> | None \<Rightarrow> t);
          t2 = (case u_completed u of Some c \<Rightarrow> t1\<lparr>completed := c\<rparr> | None \<Rightarrow> t1)
      in t2\<lparr>updatedAt := Some now\<rparr>)"

definition TodoService_updateTodo ::
  "service \<Rightarrow> string \<Rightarrow> updates \<Rightarrow> timestamp \<Rightarrow> error + (todo option \<times> service)" where
  "TodoService_updateTodo s i u now =
     (if useRedis s
      then (case RedisService_updateTodo (redisService s) i u now of
              Inl e \<Rightarrow> Inl e
            | Inr (res, r1) \<Rightarrow> Inr (res, s\<lparr>redisService := r1\<rparr>))
      else case findIndex (\<lambda>t. id_t t = i) (inMemoryTodos s) of
             None \<Rightarrow> Inr (None, s)
           | Some todoIndex \<Rightarrow>
               let t' = apply_updates (inMemoryTodos s ! todoIndex) u now
               in Inr (Some t', s\<lparr>inMemoryTodos := (inMemoryTodos s)[todoIndex := t']\<rparr>))"

definition TodoService_deleteTodo ::
  "service \<Rightarrow> string \<Rightarrow> error + (todo option \<times> service)" where
  "TodoService_deleteTodo s i =
     (if useRedis s
      then (case RedisService_deleteTodo (redisService s) i of
              Inl e \<Rightarrow> Inl e
            | Inr (res, r1) \<Rightarrow> Inr (res, s\<lparr>redisService := r1\<rparr>))
      else case findIndex (\<lambda>t. id_t t = i) (inMemoryTodos s) of
             None \<Rightarrow> Inr (None, s)
           | Some todoIndex \<Rightarrow>
               Inr (Some (inMemoryTodos s ! todoIndex),
                    s\<lparr>inMemoryTodos := take todoIndex (inMemoryTodos s)
                                         @ drop (Suc todoIndex) (inMemoryTodos s)\<rparr>))"

definition TodoService_getStats :: "service \<Rightarrow> error + stats" where
  "TodoService_getStats s =
     (if useRedis s then RedisService_getStats (redisService s)
      else Inr (stats_of (inMemoryTodos s)))"

text \<open>
  Server start: the module creates \<^verbatim>\<open>inMemoryTodos\<close> with its two defaults (ids \<open>m1\<close>,
  \<open>m2\<close>, clock readings \<open>mt1\<close>, \<open>mt2\<close>) and \<^verbatim>\<open>useRedis = false\<close>; the listen callback awaits
  \<^verbatim>\<open>redisService.connect()\<close> and stores its answer in \<^verbatim>\<open>useRedis\<close>. \<open>db0\<close> is what the
  Redis server holds at that moment.
\<close>

definition server_start ::
  "bool \<Rightarrow> redis_db \<Rightarrow> string \<Rightarrow> timestamp \<Rightarrow> string \<Rightarrow> timestamp
     \<Rightarrow> string \<Rightarrow> timestamp \<Rightarrow> string \<Rightarrow> timestamp \<Rightarrow> service" where
  "server_start reachable db0 m1 mt1 m2 mt2 u1 t1 u2 t2 =
     (let (redisConnected, r) =
            connect reachable u1 t1 u2 t2 \<lparr>isConnected = False, client = db0\<rparr>
      in \<lparr>useRedis = redisConnected,
          inMemoryTodos = initial_inMemoryTodos m1 mt1 m2 mt2,
          redisService = r\<rparr>)"

definition empty_db :: redis_db where
  "empty_db = \<lparr>todos_all = [], hashes = (\<lambda>k. None)\<rparr>"

section \<open>Sequences of operations\<close>

text \<open>
  A request against the facade that can change the dataset: create, update (with the
  clock reading it stamps), delete, and the listing, which reorders the in-memory array.
  An operation that throws leaves the state as it was.
\<close>

datatype op = Create todo | Update string updates timestamp | Delete string | ListAll

fun step :: "service \<Rightarrow> op \<Rightarrow> service" where
  "step s (Create t) =
     (case TodoService_createTodo s t of Inl e \<Rightarrow> s | Inr (_, s1) \<Rightarrow> s1)"
| "step s (Update i u now) =
     (case TodoService_updateTodo s i u now of Inl e \<Rightarrow> s | Inr (_, s1) \<Rightarrow> s1)"
| "step s (Delete i) =
     (case TodoService_deleteTodo s i of Inl e \<Rightarrow> s | Inr (_, s1) \<Rightarrow> s1)"
| "step s ListAll =
     (case TodoService_getAllTodos s of Inl e \<Rightarrow> s | Inr (_, s1) \<Rightarrow> s1)"

definition run :: "service \<Rightarrow> op list \<Rightarrow> service" where
  "run s ops = foldl step s ops"

text \<open>
  The selected backend can serve a call: the in-memory list always can, Redis when the
  client is connected.
\<close>

definition backend_available :: "service \<Rightarrow> bool" where
  "backend_available s = (useRedis s \<longrightarrow> isConnected (redisService s))"

text \<open>
  What createTodo establishes for the Redis layout: the hash stored at a key carries the
  id the key was built from, and the SET has no repeated member.
\<close>

definition redis_inv :: "redis_db \<Rightarrow> bool" where
  "redis_inv db =
     ((\<forall>k h. hashes db k = Some h \<longrightarrow> k = TODO_PREFIX @ h_id h) \<and> distinct (todos_all db))"

text \<open>
  The object the \<^verbatim>\<open>POST /api/todos\<close> handler hands to createTodo: \<open>uuid\<close> is what
  \<^verbatim>\<open>uuidv4()\<close> returned, \<open>txt\<close> the trimmed request text, \<open>now\<close> the clock reading.
\<close>

definition newTodo :: "string \<Rightarrow> string \<Rightarrow> timestamp \<Rightarrow> todo" where
  "newTodo uuid txt now =
     \<lparr>id_t = uuid, text_t = txt, completed = False, createdAt = now, updatedAt = None\<rparr>"

text \<open>The ids handed to createTodo along a sequence of operations, in order.\<close>

fun created_ids :: "op list \<Rightarrow> string list" where
  "created_ids [] = []"
| "created_ids (Create t # ops) = id_t t # created_ids ops"
| "created_ids (_ # ops) = created_ids ops"

text \<open>
  A sequence of operations that neither updates the Item with id \<open>i\<close> nor hands \<open>i\<close> to
  createTodo again; deleting it and listing are allowed.
\<close>

fun untouched :: "string \<Rightarrow> op list \<Rightarrow> bool" where
  "untouched i [] = True"
| "untouched i (Create t # ops) = (id_t t \<noteq> i \<and> untouched i ops)"
| "untouched i (Update j u now # ops) = (j \<noteq> i \<and> untouched i ops)"
| "untouched i (Delete j # ops) = untouched i ops"
| "untouched i (ListAll # ops) = untouched i ops"

text \<open>
  The Items the selected backend holds for the id \<open>i\<close>: the elements of the in-memory
  list with that id, or what the Redis readers build from the hash stored at its key.
\<close>

definition stored_items :: "service \<Rightarrow> string \<Rightarrow> todo set" where
  "stored_items s i =
     (if useRedis s
      then {todo_of_hash h |h. hashes (client (redisService s)) (TODO_PREFIX @ i) = Some h}
      else {x \<in> set (inMemoryTodos s). id_t x = i})"

text \<open>
  What the operations that return Items show for the id \<open>i\<close> in state \<open>s\<close>: getTodoById,
  getAllTodos and deleteTodo all return normally, and every Item with id \<open>i\<close> among their
  results has the \<^verbatim>\<open>updatedAt\<close> that \<open>w\<close> prescribes for it.
\<close>

definition reads_show :: "service \<Rightarrow> string \<Rightarrow> (todo \<Rightarrow> timestamp option) \<Rightarrow> bool" where
  "reads_show s i w =
     ((\<exists>r. TodoService_getTodoById s i = Inr r \<and> (\<forall>t. r = Some t \<longrightarrow> updatedAt t = w t))
      \<and> (\<exists>ts s'. TodoService_getAllTodos s = Inr (ts, s')
                  \<and> (\<forall>t\<in>set ts. id_t t = i \<longrightarrow> updatedAt t = w t))
      \<and> (\<exists>r s'. TodoService_deleteTodo s i = Inr (r, s')
                  \<and> (\<forall>t. r = Some t \<longrightarrow> updatedAt t = w t)))"

section \<open>Example runs\<close>

text \<open>
  Three server starts used to evaluate the operations on concrete data: Redis
  unreachable, Redis reachable and empty, Redis reachable with an index entry that has
  no hash. Both seed lists get the same ids and clock readings.
\<close>

definition demo_volatile :: service where
  "demo_volatile = server_start False empty_db ''s1'' 10 ''s2'' 10 ''s1'' 10 ''s2'' 10"

definition demo_durable :: service where
  "demo_durable = server_start True empty_db ''s1'' 10 ''s2'' 10 ''s1'' 10 ''s2'' 10"

definition demo_desync :: service where
  "demo_desync =
     server_start True \<lparr>todos_all = [''ghost''], hashes = (\<lambda>k. None)\<rparr>
       ''s1'' 10 ''s2'' 10 ''s1'' 10 ''s2'' 10"

section \<open>Auxiliary facts\<close>

text \<open>No hash key is the key of the SET, so the two can be kept apart.\<close>

lemma todo_key_not_index: "TODO_PREFIX @ i \<noteq> TODOS_KEY"
  by (simp add: TODO_PREFIX_def TODOS_KEY_def)

lemma mset_insert_cmp: "mset (insert_cmp cmp x xs) = add_mset x (mset xs)"
  by (induction xs) auto

lemma mset_js_sort: "mset (js_sort cmp xs) = mset xs"
  unfolding js_sort_def by (induction xs) (auto simp: mset_insert_cmp)

lemma set_js_sort: "set (js_sort cmp xs) = set xs"
  by (metis mset_js_sort set_mset_mset)

lemma set_insert_cmp: "set (insert_cmp cmp x xs) = insert x (set xs)"
  by (metis mset_insert_cmp set_mset_mset set_mset_add_mset_insert)

lemma sorted_insert_newest:
  "sorted_wrt (\<lambda>a b. createdAt b \<le> createdAt a) xs \<Longrightarrow>
   sorted_wrt (\<lambda>a b. createdAt b \<le> createdAt a) (insert_cmp newest_first x xs)"
  by (induction xs) (auto simp: set_insert_cmp newest_first_def)

lemma sorted_js_sort:
  "sorted_wrt (\<lambda>a b. createdAt b \<le> createdAt a) (js_sort newest_first xs)"
  unfolding js_sort_def by (induction xs) (auto simp: sorted_insert_newest)

lemma js_sort_Nil: "js_sort cmp [] = []"
  by (simp add: js_sort_def)

lemma findIndex_Some:
  "findIndex p xs = Some k \<Longrightarrow> k < length xs \<and> p (xs ! k) \<and> (\<forall>j<k. \<not> p (xs ! j))"
proof (induction xs arbitrary: k)
  case Nil
  then show ?case by simp
next
  case (Cons x xs)
  show ?case
  proof (cases "p x")
    case True
    with Cons.prems show ?thesis by simp
  next
    case False
    with Cons.prems obtain k' where k': "findIndex p xs = Some k'" "k = Suc k'"
      by auto
    from Cons.IH[OF k'(1)] False k'(2) show ?thesis
      by (auto simp: nth_Cons split: nat.splits)
  qed
qed

lemma find_findIndex: "find p xs = map_option (\<lambda>k. xs ! k) (findIndex p xs)"
  by (induction xs) (auto simp: option.map_comp comp_def)

lemma useRedis_step: "useRedis (step s a) = useRedis s"
  by (cases a)
     (auto simp: TodoService_createTodo_def TodoService_updateTodo_def
        TodoService_deleteTodo_def TodoService_getAllTodos_def Let_def
        split: sum.splits option.splits prod.splits)

lemma useRedis_run: "useRedis (run s ops) = useRedis s"
  unfolding run_def by (induction ops arbitrary: s) (auto simp: useRedis_step)

lemma isConnected_step: "isConnected (redisService (step s a)) = isConnected (redisService s)"
  by (cases a)
     (auto simp: TodoService_createTodo_def TodoService_updateTodo_def
        TodoService_deleteTodo_def TodoService_getAllTodos_def Let_def
        RedisService_createTodo_def RedisService_updateTodo_def RedisService_deleteTodo_def
        RedisService_getTodoById_def
        split: sum.splits option.splits prod.splits if_splits)

lemma backend_available_step: "backend_available (step s a) = backend_available s"
  by (simp add: backend_available_def useRedis_step isConnected_step)

lemma backend_available_run: "backend_available (run s ops) = backend_available s"
  unfolding run_def by (induction ops arbitrary: s) (auto simp: backend_available_step)

lemma inv_sAdd: "redis_inv db \<Longrightarrow> redis_inv (sAdd m db)"
  by (auto simp: redis_inv_def sAdd_def)

lemma inv_sRem: "redis_inv db \<Longrightarrow> redis_inv (sRem m db)"
  by (auto simp: redis_inv_def sRem_def distinct_removeAll)

lemma inv_del: "redis_inv db \<Longrightarrow> redis_inv (del k db)"
  by (auto simp: redis_inv_def del_def)

lemma inv_hSet_same_id:
  "redis_inv db \<Longrightarrow> f_id fs = None \<or> (\<exists>i. f_id fs = Some i \<and> k = TODO_PREFIX @ i) \<Longrightarrow>
   redis_inv (hSet k fs db)"
  by (auto simp: redis_inv_def hSet_def merge_fields_def new_hash_def
      split: option.splits)

lemma inv_createTodo:
  "redis_inv (client r) \<Longrightarrow> RedisService_createTodo r t = Inr (t', r') \<Longrightarrow> redis_inv (client r')"
  by (auto simp: RedisService_createTodo_def Let_def inv_sAdd inv_hSet_same_id
      split: if_splits)

lemma inv_updateTodo:
  "redis_inv (client r) \<Longrightarrow> RedisService_updateTodo r i u now = Inr (res, r') \<Longrightarrow>
   redis_inv (client r')"
  by (auto simp: RedisService_updateTodo_def Let_def inv_hSet_same_id
      split: if_splits sum.splits)

lemma inv_deleteTodo:
  "redis_inv (client r) \<Longrightarrow> RedisService_deleteTodo r i = Inr (res, r') \<Longrightarrow>
   redis_inv (client r')"
  by (auto simp: RedisService_deleteTodo_def Let_def inv_sRem inv_del
      split: if_splits sum.splits option.splits)

lemma inv_step:
  "redis_inv (client (redisService s)) \<Longrightarrow> redis_inv (client (redisService (step s a)))"
  by (cases a)
     (auto simp: TodoService_createTodo_def TodoService_updateTodo_def
        TodoService_deleteTodo_def TodoService_getAllTodos_def Let_def
        split: sum.splits option.splits prod.splits if_splits
        dest: inv_createTodo inv_updateTodo inv_deleteTodo)

lemma inv_run:
  "redis_inv (client (redisService s)) \<Longrightarrow> redis_inv (client (redisService (run s ops)))"
  unfolding run_def by (induction ops arbitrary: s) (auto simp: inv_step)

lemma fetch_todos_mem:
  "t \<in> set (fetch_todos db ids) \<Longrightarrow>
   \<exists>i\<in>set ids. \<exists>h. hashes db (TODO_PREFIX @ i) = Some h \<and> h_id h \<noteq> [] \<and> t = todo_of_hash h"
  by (induction ids) (auto simp: hGetAll_def split: option.splits if_splits)

lemma fetch_todos_ids:
  "redis_inv db \<Longrightarrow>
   map id_t (fetch_todos db ids) =
     filter (\<lambda>i. i \<noteq> [] \<and> hashes db (TODO_PREFIX @ i) \<noteq> None) ids"
  by (induction ids)
     (auto simp: hGetAll_def redis_inv_def todo_of_hash_def split: option.splits)

lemma getAllTodos_connected:
  "isConnected r \<Longrightarrow>
   RedisService_getAllTodos r =
     Inr (js_sort newest_first (fetch_todos (client r) (todos_all (client r))))"
  by (simp add: RedisService_getAllTodos_def sMembers_def Let_def js_sort_Nil)

lemma getTodoById_connected:
  "isConnected r \<Longrightarrow>
   RedisService_getTodoById r i =
     Inr (case hashes (client r) (TODO_PREFIX @ i) of
            None \<Rightarrow> None
          | Some h \<Rightarrow> if h_id h = [] then None else Some (todo_of_hash h))"
  by (simp add: RedisService_getTodoById_def hGetAll_def split: option.splits)

lemma stats_of_sum: "completed_s (stats_of ts) + pending (stats_of ts) = total (stats_of ts)"
  by (simp add: stats_of_def sum_length_filter_compl)

lemma find_member:
  "x \<in> set xs \<Longrightarrow> p x \<Longrightarrow> \<exists>y. find p xs = Some y \<and> p y \<and> y \<in> set xs"
  by (induction xs) auto

lemma list_then_get_volatile:
  assumes "\<not> useRedis s"
  shows "\<exists>ts s'. TodoService_getAllTodos s = Inr (ts, s')
           \<and> (\<forall>t\<in>set ts. \<exists>t'. TodoService_getTodoById s' (id_t t) = Inr (Some t')
                                \<and> id_t t' = id_t t \<and> t' \<in> set ts)"
proof -
  let ?ts = "js_sort newest_first (inMemoryTodos s)"
  let ?s' = "s\<lparr>inMemoryTodos := ?ts\<rparr>"
  have l: "TodoService_getAllTodos s = Inr (?ts, ?s')"
    using assms by (simp add: TodoService_getAllTodos_def Let_def)
  have "\<exists>t'. TodoService_getTodoById ?s' (id_t t) = Inr (Some t')
             \<and> id_t t' = id_t t \<and> t' \<in> set ?ts" if "t \<in> set ?ts" for t
    using find_member[OF that, of "\<lambda>x. id_t x = id_t t"] assms
    by (auto simp: TodoService_getTodoById_def)
  with l show ?thesis by blast
qed

lemma list_then_get_redis:
  assumes "useRedis s" and "isConnected (redisService s)"
    and "redis_inv (client (redisService s))"
  shows "\<exists>ts. TodoService_getAllTodos s = Inr (ts, s)
           \<and> (\<forall>t\<in>set ts. TodoService_getTodoById s (id_t t) = Inr (Some t))
           \<and> (\<forall>i\<in>set (todos_all (client (redisService s))).
                 hashes (client (redisService s)) (TODO_PREFIX @ i) = None
                 \<longrightarrow> i \<notin> id_t ` set ts)"
proof -
  let ?db = "client (redisService s)"
  let ?ts = "js_sort newest_first (fetch_todos ?db (todos_all ?db))"
  have l: "TodoService_getAllTodos s = Inr (?ts, s)"
    using assms by (simp add: TodoService_getAllTodos_def getAllTodos_connected)
  have g: "TodoService_getTodoById s (id_t t) = Inr (Some t)" if "t \<in> set ?ts" for t
  proof -
    from that obtain i h where h: "hashes ?db (TODO_PREFIX @ i) = Some h" "h_id h \<noteq> []"
        "t = todo_of_hash h"
      using fetch_todos_mem by (fastforce simp: set_js_sort)
    from h(1) assms(3) have "i = h_id h"
      by (auto simp: redis_inv_def)
    with h assms show ?thesis
      by (simp add: TodoService_getTodoById_def getTodoById_connected todo_of_hash_def)
  qed
  have e: "i \<notin> id_t ` set ?ts" if "hashes ?db (TODO_PREFIX @ i) = None" for i
  proof -
    have "set (map id_t ?ts) = set (map id_t (fetch_todos ?db (todos_all ?db)))"
      by (simp add: set_js_sort)
    with that show ?thesis
      using fetch_todos_ids[OF assms(3), of "todos_all ?db"] by auto
  qed
  from l g e show ?thesis by blast
qed

lemmas eval_defs =
  server_start_def connect_def initializeDefaultTodos_def redis_defaultTodos_def
  initial_inMemoryTodos_def empty_db_def
  RedisService_getAllTodos_def RedisService_getTodoById_def RedisService_createTodo_def
  RedisService_updateTodo_def RedisService_deleteTodo_def RedisService_getStats_def
  TodoService_getAllTodos_def TodoService_getTodoById_def TodoService_createTodo_def
  TodoService_updateTodo_def TodoService_deleteTodo_def TodoService_getStats_def
  sMembers_def sAdd_def sRem_def hGetAll_def exists_key_def del_def hSet_def
  merge_fields_def new_hash_def bool_toString_def todo_of_hash_def TODO_PREFIX_def
  js_sort_def newest_first_def stats_of_def apply_updates_def run_def Let_def

lemma findIndex_decomp:
  "findIndex p xs = Some k \<Longrightarrow> xs = take k xs @ xs ! k # drop (Suc k) xs"
  using findIndex_Some[of p xs k] by (simp add: id_take_nth_drop)

lemma find_update_first:
  "findIndex p xs = Some k \<Longrightarrow> p y \<Longrightarrow> find p (xs[k := y]) = Some y"
proof (induction xs arbitrary: k)
  case Nil
  then show ?case by simp
next
  case (Cons x xs)
  then show ?case
    by (cases "p x") auto
qed

lemma find_append_new: "find p xs = None \<Longrightarrow> p y \<Longrightarrow> find p (xs @ [y]) = Some y"
  by (induction xs) (auto split: if_splits)


lemma bool_toString_true: "(bool_toString b = ''true'') = b"
  by (simp add: bool_toString_def)

lemma update_existing_volatile:
  assumes "\<not> useRedis s" and "TodoService_getTodoById s i = Inr (Some t)"
  shows "\<exists>s1. TodoService_updateTodo s i u now = Inr (Some (apply_updates t u now), s1)
           \<and> TodoService_getTodoById s1 i = Inr (Some (apply_updates t u now))"
proof -
  let ?p = "\<lambda>x. id_t x = i"
  from assms have "find ?p (inMemoryTodos s) = Some t"
    by (simp add: TodoService_getTodoById_def)
  then obtain k where k: "findIndex ?p (inMemoryTodos s) = Some k" "inMemoryTodos s ! k = t"
    by (auto simp: find_findIndex)
  from findIndex_Some[OF k(1)] k(2) have "id_t t = i"
    by simp
  then have "?p (apply_updates t u now)"
    by (simp add: apply_updates_def Let_def split: option.splits)
  from find_update_first[OF k(1) this] k assms(1) show ?thesis
    by (simp add: TodoService_updateTodo_def TodoService_getTodoById_def Let_def)
qed

lemma update_existing_redis:
  assumes "useRedis s" and "TodoService_getTodoById s i = Inr (Some t)"
  shows "\<exists>s1. TodoService_updateTodo s i u now = Inr (Some (apply_updates t u now), s1)
           \<and> TodoService_getTodoById s1 i = Inr (Some (apply_updates t u now))"
proof -
  let ?r = "redisService s"
  from assms have g: "RedisService_getTodoById ?r i = Inr (Some t)"
    by (simp add: TodoService_getTodoById_def)
  then have c: "isConnected ?r"
    by (auto simp: RedisService_getTodoById_def split: if_splits)
  from g c obtain h where h: "hashes (client ?r) (TODO_PREFIX @ i) = Some h" "h_id h \<noteq> []"
      "t = todo_of_hash h"
    by (auto simp: getTodoById_connected split: option.splits if_splits)
  let ?h' = "merge_fields h \<lparr>f_id = None, f_text = u_text u,
                f_completed = map_option bool_toString (u_completed u),
                f_createdAt = None, f_updatedAt = Some now\<rparr>"
  have t': "todo_of_hash ?h' = apply_updates t u now"
    by (simp add: h(3) todo_of_hash_def merge_fields_def apply_updates_def Let_def
        bool_toString_true split: option.splits)
  have i': "h_id ?h' \<noteq> []"
    using h(2) by (simp add: merge_fields_def)
  let ?r1 = "?r\<lparr>client := (client ?r)\<lparr>hashes := (hashes (client ?r))(TODO_PREFIX @ i \<mapsto> ?h')\<rparr>\<rparr>"
  have g1: "RedisService_getTodoById ?r1 i = Inr (Some (apply_updates t u now))"
    using c i' t' by (simp add: getTodoById_connected)
  have "RedisService_updateTodo ?r i u now = Inr (Some (apply_updates t u now), ?r1)"
    using c h(1) g g1
    by (simp add: RedisService_updateTodo_def exists_key_def hSet_def Let_def)
  with assms(1) g1 show ?thesis
    by (simp add: TodoService_updateTodo_def TodoService_getTodoById_def)
qed

lemma update_existing:
  assumes "TodoService_getTodoById s i = Inr (Some t)"
  shows "\<exists>s1. TodoService_updateTodo s i u now = Inr (Some (apply_updates t u now), s1)
           \<and> TodoService_getTodoById s1 i = Inr (Some (apply_updates t u now))"
  using assms update_existing_volatile update_existing_redis by (cases "useRedis s") blast+

lemma create_then_get_volatile:
  assumes "\<not> useRedis s" and "TodoService_getTodoById s (id_t t) = Inr None"
  shows "\<exists>s1. TodoService_createTodo s t = Inr (t, s1)
           \<and> TodoService_getTodoById s1 (id_t t) = Inr (Some t)"
  using assms find_append_new[of "\<lambda>x. id_t x = id_t t" "inMemoryTodos s" t]
  by (simp add: TodoService_createTodo_def TodoService_getTodoById_def)

lemma create_then_get_redis:
  assumes "useRedis s" and "isConnected (redisService s)" and "id_t t \<noteq> []"
  shows "\<exists>s1 t1. TodoService_createTodo s t = Inr (t, s1)
           \<and> TodoService_getTodoById s1 (id_t t) = Inr (Some t1)
           \<and> t1\<lparr>updatedAt := None\<rparr> = t\<lparr>updatedAt := None\<rparr>
           \<and> (hashes (client (redisService s)) (TODO_PREFIX @ id_t t) = None
                \<longrightarrow> updatedAt t1 = Some (createdAt t))"
  using assms
  by (cases "hashes (client (redisService s)) (TODO_PREFIX @ id_t t)")
     (auto simp: TodoService_createTodo_def TodoService_getTodoById_def
        RedisService_createTodo_def getTodoById_connected hSet_def new_hash_def
        merge_fields_def sAdd_def todo_of_hash_def bool_toString_def Let_def)




lemma fetch_todos_complete:
  "i \<in> set ids \<Longrightarrow> hashes db (TODO_PREFIX @ i) = Some h \<Longrightarrow> h_id h \<noteq> [] \<Longrightarrow>
   todo_of_hash h \<in> set (fetch_todos db ids)"
  by (induction ids) (auto simp: hGetAll_def split: option.splits)

lemma list_sorted_all:
  assumes "backend_available s"
  shows "\<exists>ts s'. TodoService_getAllTodos s = Inr (ts, s')
           \<and> sorted_wrt (\<lambda>a b. createdAt b \<le> createdAt a) ts
           \<and> (\<not> useRedis s \<longrightarrow> mset ts = mset (inMemoryTodos s))
           \<and> (useRedis s \<longrightarrow>
                (\<forall>i\<in>set (todos_all (client (redisService s))).
                   \<forall>t. TodoService_getTodoById s i = Inr (Some t) \<longrightarrow> t \<in> set ts))"
proof (cases "useRedis s")
  case False
  then show ?thesis
    by (simp add: TodoService_getAllTodos_def Let_def sorted_js_sort mset_js_sort)
next
  case True
  with assms have c: "isConnected (redisService s)"
    by (simp add: backend_available_def)
  let ?db = "client (redisService s)"
  let ?ts = "js_sort newest_first (fetch_todos ?db (todos_all ?db))"
  have l: "TodoService_getAllTodos s = Inr (?ts, s)"
    using True c by (simp add: TodoService_getAllTodos_def getAllTodos_connected)
  have "t \<in> set ?ts"
    if "i \<in> set (todos_all ?db)" "TodoService_getTodoById s i = Inr (Some t)" for i t
    using that True c fetch_todos_complete[of i "todos_all ?db" ?db]
    by (auto simp: TodoService_getTodoById_def getTodoById_connected set_js_sort
        split: option.splits if_splits)
  with l True show ?thesis
    by (auto simp: sorted_js_sort)
qed

lemma abc_volatile:
  assumes "\<not> useRedis s" and "inMemoryTodos s = []"
    and "createdAt A < createdAt B" and "createdAt B < createdAt C"
  shows "\<exists>s'. TodoService_getAllTodos (run s [Create A, Create B, Create C]) = Inr ([C, B, A], s')"
  using assms
  by (simp add: run_def TodoService_createTodo_def TodoService_getAllTodos_def Let_def
      js_sort_def newest_first_def)

lemma create_effect_redis:
  assumes "useRedis s" and "isConnected (redisService s)" and "id_t t \<noteq> []"
  shows "\<exists>s1 h. TodoService_createTodo s t = Inr (t, s1)
           \<and> useRedis s1 \<and> isConnected (redisService s1)
           \<and> hashes (client (redisService s1))
               = (hashes (client (redisService s)))(TODO_PREFIX @ id_t t \<mapsto> h)
           \<and> h_id h \<noteq> []
           \<and> todo_of_hash h = t\<lparr>updatedAt := updatedAt (todo_of_hash h)\<rparr>
           \<and> todos_all (client (redisService s1))
               = (if id_t t \<in> set (todos_all (client (redisService s)))
                  then todos_all (client (redisService s))
                  else todos_all (client (redisService s)) @ [id_t t])"
  using assms
  by (cases "hashes (client (redisService s)) (TODO_PREFIX @ id_t t)")
     (auto simp: TodoService_createTodo_def RedisService_createTodo_def hSet_def new_hash_def
        merge_fields_def sAdd_def todo_of_hash_def bool_toString_def Let_def)

lemma abc_redis:
  assumes "useRedis s" and "isConnected (redisService s)"
    and "todos_all (client (redisService s)) = []"
    and "createdAt A < createdAt B" and "createdAt B < createdAt C"
    and "distinct [id_t A, id_t B, id_t C]" and "[] \<notin> set [id_t A, id_t B, id_t C]"
  shows "\<exists>ts s'. TodoService_getAllTodos (run s [Create A, Create B, Create C]) = Inr (ts, s')
           \<and> map (\<lambda>t. t\<lparr>updatedAt := None\<rparr>) ts = map (\<lambda>t. t\<lparr>updatedAt := None\<rparr>) [C, B, A]"
proof -
  from assms(7) have ne: "id_t A \<noteq> []" "id_t B \<noteq> []" "id_t C \<noteq> []"
    by auto
  from assms(6) have d: "id_t A \<noteq> id_t B" "id_t A \<noteq> id_t C" "id_t B \<noteq> id_t C"
    by auto
  from create_effect_redis[OF assms(1,2) ne(1)] assms(3) obtain s1 ha where
    s1: "TodoService_createTodo s A = Inr (A, s1)" "useRedis s1" "isConnected (redisService s1)"
      "hashes (client (redisService s1))
         = (hashes (client (redisService s)))(TODO_PREFIX @ id_t A \<mapsto> ha)"
      "h_id ha \<noteq> []" "todo_of_hash ha = A\<lparr>updatedAt := updatedAt (todo_of_hash ha)\<rparr>"
      "todos_all (client (redisService s1)) = [id_t A]"
    by auto
  from create_effect_redis[OF s1(2,3) ne(2)] s1(7) d obtain s2 hb where
    s2: "TodoService_createTodo s1 B = Inr (B, s2)" "useRedis s2" "isConnected (redisService s2)"
      "hashes (client (redisService s2))
         = (hashes (client (redisService s1)))(TODO_PREFIX @ id_t B \<mapsto> hb)"
      "h_id hb \<noteq> []" "todo_of_hash hb = B\<lparr>updatedAt := updatedAt (todo_of_hash hb)\<rparr>"
      "todos_all (client (redisService s2)) = [id_t A, id_t B]"
    by auto
  from create_effect_redis[OF s2(2,3) ne(3)] s2(7) d obtain s3 hc where
    s3: "TodoService_createTodo s2 C = Inr (C, s3)" "useRedis s3" "isConnected (redisService s3)"
      "hashes (client (redisService s3))
         = (hashes (client (redisService s2)))(TODO_PREFIX @ id_t C \<mapsto> hc)"
      "h_id hc \<noteq> []" "todo_of_hash hc = C\<lparr>updatedAt := updatedAt (todo_of_hash hc)\<rparr>"
      "todos_all (client (redisService s3)) = [id_t A, id_t B, id_t C]"
    by auto
  have r: "run s [Create A, Create B, Create C] = s3"
    by (simp add: run_def s1(1) s2(1) s3(1))
  have f: "fetch_todos (client (redisService s3)) [id_t A, id_t B, id_t C]
             = [todo_of_hash ha, todo_of_hash hb, todo_of_hash hc]"
    using d by (simp add: hGetAll_def s3(4) s2(4) s1(4) s1(5) s2(5) s3(5))
  have c: "createdAt (todo_of_hash ha) = createdAt A" "createdAt (todo_of_hash hb) = createdAt B"
      "createdAt (todo_of_hash hc) = createdAt C"
    using arg_cong[OF s1(6), of createdAt] arg_cong[OF s2(6), of createdAt]
      arg_cong[OF s3(6), of createdAt]
    by simp_all
  have "js_sort newest_first [todo_of_hash ha, todo_of_hash hb, todo_of_hash hc]
          = [todo_of_hash hc, todo_of_hash hb, todo_of_hash ha]"
    using assms(4,5) by (simp add: js_sort_def newest_first_def c)
  then have l: "TodoService_getAllTodos s3
          = Inr ([todo_of_hash hc, todo_of_hash hb, todo_of_hash ha], s3)"
    using s3(2,3,7) f by (simp add: TodoService_getAllTodos_def getAllTodos_connected)
  have n: "(todo_of_hash ha)\<lparr>updatedAt := None\<rparr> = A\<lparr>updatedAt := None\<rparr>"
      "(todo_of_hash hb)\<lparr>updatedAt := None\<rparr> = B\<lparr>updatedAt := None\<rparr>"
      "(todo_of_hash hc)\<lparr>updatedAt := None\<rparr> = C\<lparr>updatedAt := None\<rparr>"
    using arg_cong[OF s1(6), of "\<lambda>t. t\<lparr>updatedAt := None\<rparr>"]
      arg_cong[OF s2(6), of "\<lambda>t. t\<lparr>updatedAt := None\<rparr>"]
      arg_cong[OF s3(6), of "\<lambda>t. t\<lparr>updatedAt := None\<rparr>"]
    by simp_all
  from l r n show ?thesis
    by simp
qed

lemma distinct_map_js_sort: "distinct (map f (js_sort cmp xs)) = distinct (map f xs)"
proof -
  have "mset (map f (js_sort cmp xs)) = mset (map f xs)"
    by (simp add: mset_js_sort)
  then show ?thesis
    by (rule mset_eq_imp_distinct_iff)
qed

lemma step_ids_volatile:
  assumes "\<not> useRedis s"
  shows "mset (map id_t (inMemoryTodos (step s a))) \<subseteq># mset (map id_t (inMemoryTodos s)) + mset (created_ids [a])"
proof (cases a)
  case (Create t)
  with assms show ?thesis
    by (simp add: TodoService_createTodo_def)
next
  case (Update i u now)
  show ?thesis
  proof (cases "findIndex (\<lambda>t. id_t t = i) (inMemoryTodos s)")
    case None
    with assms Update show ?thesis
      by (simp add: TodoService_updateTodo_def)
  next
    case (Some k)
    from findIndex_Some[OF Some] have "id_t (apply_updates (inMemoryTodos s ! k) u now) = id_t (inMemoryTodos s ! k)"
      by (simp add: apply_updates_def Let_def split: option.splits)
    moreover from findIndex_Some[OF Some]
    have "(map id_t (inMemoryTodos s))[k := id_t (inMemoryTodos s ! k)] = map id_t (inMemoryTodos s)"
      by (metis list_update_id nth_map)
    ultimately have "map id_t ((inMemoryTodos s)[k := apply_updates (inMemoryTodos s ! k) u now])
                 = map id_t (inMemoryTodos s)"
      by (simp add: map_update)
    with assms Update Some show ?thesis
      by (simp add: TodoService_updateTodo_def Let_def)
  qed
next
  case (Delete i)
  show ?thesis
  proof (cases "findIndex (\<lambda>t. id_t t = i) (inMemoryTodos s)")
    case None
    with assms Delete show ?thesis
      by (simp add: TodoService_deleteTodo_def)
  next
    case (Some k)
    have "mset (take k (inMemoryTodos s) @ drop (Suc k) (inMemoryTodos s))
            \<subseteq># mset (take k (inMemoryTodos s) @ inMemoryTodos s ! k # drop (Suc k) (inMemoryTodos s))"
      by simp
    then have "mset (take k (inMemoryTodos s) @ drop (Suc k) (inMemoryTodos s))
            \<subseteq># mset (inMemoryTodos s)"
      using findIndex_decomp[OF Some] by simp
    then have "mset (map id_t (take k (inMemoryTodos s) @ drop (Suc k) (inMemoryTodos s)))
            \<subseteq># mset (map id_t (inMemoryTodos s))"
      using image_mset_subseteq_mono by fastforce
    with assms Delete Some show ?thesis
      by (simp add: TodoService_deleteTodo_def)
  qed
next
  case ListAll
  with assms show ?thesis
    by (simp add: TodoService_getAllTodos_def Let_def mset_js_sort)
qed

lemma created_ids_Cons: "created_ids (a # ops) = created_ids [a] @ created_ids ops"
  by (cases a) simp_all

lemma run_Cons: "run s (a # ops) = run (step s a) ops"
  by (simp add: run_def)

lemma run_ids_volatile:
  "\<not> useRedis s \<Longrightarrow>
   mset (map id_t (inMemoryTodos (run s ops)))
     \<subseteq># mset (map id_t (inMemoryTodos s)) + mset (created_ids ops)"
proof (induction ops arbitrary: s)
  case Nil
  then show ?case by (simp add: run_def)
next
  case (Cons a ops)
  from Cons.prems have "\<not> useRedis (step s a)"
    by (simp add: useRedis_step)
  from Cons.IH[OF this]
  have "mset (map id_t (inMemoryTodos (run s (a # ops))))
          \<subseteq># mset (map id_t (inMemoryTodos (step s a))) + mset (created_ids ops)"
    by (simp add: run_Cons)
  also have "\<dots> \<subseteq># (mset (map id_t (inMemoryTodos s)) + mset (created_ids [a]))
                    + mset (created_ids ops)"
    using step_ids_volatile[OF Cons.prems, of a] by (simp del: created_ids.simps)
  also have "\<dots> = mset (map id_t (inMemoryTodos s)) + mset (created_ids (a # ops))"
    by (subst created_ids_Cons[of a ops]) (simp del: created_ids.simps)
  finally show ?case .
qed

lemma distinct_submset:
  assumes "mset xs \<subseteq># mset ys" and "distinct ys"
  shows "distinct xs"
proof -
  have le: "count (mset xs) a \<le> 1" for a
  proof -
    have "count (mset xs) a \<le> count (mset ys) a"
      using assms(1) by (simp add: mset_subset_eq_count)
    also have "\<dots> \<le> 1"
      using assms(2) by (simp add: distinct_count_atmost_1)
    finally show ?thesis .
  qed
  have "count (mset xs) a = (if a \<in> set xs then 1 else 0)" for a
  proof (cases "a \<in> set xs")
    case True
    then have "0 < count (mset xs) a"
      by simp
    with le[of a] have "count (mset xs) a = 1"
      by linarith
    with True show ?thesis
      by simp
  next
    case False
    then show ?thesis
      by (simp add: count_eq_zero_iff)
  qed
  then show ?thesis
    by (simp add: distinct_count_atmost_1)
qed

lemma run_distinct_volatile:
  assumes "\<not> useRedis s" and "distinct (map id_t (inMemoryTodos s) @ created_ids ops)"
  shows "distinct (map id_t (inMemoryTodos (run s ops)))"
proof -
  have "mset (map id_t (inMemoryTodos (run s ops)))
          \<subseteq># mset (map id_t (inMemoryTodos s) @ created_ids ops)"
    using run_ids_volatile[OF assms(1), of ops] by simp
  from distinct_submset[OF this assms(2)] show ?thesis .
qed

lemma list_ids_distinct_redis:
  assumes "useRedis s" and "isConnected (redisService s)"
    and "redis_inv (client (redisService s))"
  shows "\<exists>ts. TodoService_getAllTodos s = Inr (ts, s) \<and> distinct (map id_t ts)"
proof -
  let ?db = "client (redisService s)"
  have "distinct (todos_all ?db)"
    using assms(3) by (simp add: redis_inv_def)
  then have "distinct (map id_t (fetch_todos ?db (todos_all ?db)))"
    by (simp add: fetch_todos_ids[OF assms(3)])
  then have "distinct (map id_t (js_sort newest_first (fetch_todos ?db (todos_all ?db))))"
    by (simp add: distinct_map_js_sort)
  with assms(1,2) show ?thesis
    by (simp add: TodoService_getAllTodos_def getAllTodos_connected)
qed

lemma listed_updatedAt_redis:
  assumes "useRedis s" and "TodoService_getAllTodos s = Inr (ts, s')" and "t \<in> set ts"
  shows "updatedAt t \<noteq> None"
proof -
  from assms(1,2) have c: "isConnected (redisService s)"
    by (auto simp: TodoService_getAllTodos_def RedisService_getAllTodos_def
        split: if_splits sum.splits)
  with assms have "t \<in> set (fetch_todos (client (redisService s))
                        (todos_all (client (redisService s))))"
    by (auto simp: TodoService_getAllTodos_def getAllTodos_connected set_js_sort)
  from fetch_todos_mem[OF this] show ?thesis
    by (auto simp: todo_of_hash_def)
qed

lemma volatile_start_list:
  "TodoService_getAllTodos (server_start False db0 m1 mt1 m2 mt2 u1 t1 u2 t2)
     = Inr (js_sort newest_first (initial_inMemoryTodos m1 mt1 m2 mt2),
            (server_start False db0 m1 mt1 m2 mt2 u1 t1 u2 t2)
              \<lparr>inMemoryTodos := js_sort newest_first (initial_inMemoryTodos m1 mt1 m2 mt2)\<rparr>)"
  by (simp add: server_start_def connect_def TodoService_getAllTodos_def Let_def)

lemma durable_start_list:
  assumes "u1 \<noteq> []" and "u2 \<noteq> []" and "u1 \<noteq> u2"
  shows "TodoService_getAllTodos (server_start True empty_db m1 mt1 m2 mt2 u1 t1 u2 t2)
     = Inr (js_sort newest_first
              (map (\<lambda>t. t\<lparr>updatedAt := Some (createdAt t)\<rparr>) (redis_defaultTodos u1 t1 u2 t2)),
            server_start True empty_db m1 mt1 m2 mt2 u1 t1 u2 t2)"
  using assms
  by (simp add: server_start_def connect_def initializeDefaultTodos_def redis_defaultTodos_def
      empty_db_def TodoService_getAllTodos_def RedisService_getAllTodos_def
      RedisService_createTodo_def sMembers_def sAdd_def hSet_def new_hash_def hGetAll_def
      todo_of_hash_def bool_toString_def Let_def)

lemma create_then_get:
  assumes "backend_available s" and "uuid \<noteq> []"
    and "TodoService_getTodoById s uuid = Inr None"
  shows "\<exists>s1 t. TodoService_createTodo s (newTodo uuid txt now) = Inr (newTodo uuid txt now, s1)
           \<and> TodoService_getTodoById s1 uuid = Inr (Some t)
           \<and> id_t t = uuid \<and> text_t t = txt \<and> \<not> completed t \<and> createdAt t = now"
proof (cases "useRedis s")
  case True
  with assms(1) have c: "isConnected (redisService s)"
    by (simp add: backend_available_def)
  have i: "id_t (newTodo uuid txt now) \<noteq> []"
    using assms(2) by (simp add: newTodo_def)
  from create_then_get_redis[OF True c i] obtain s1 t1 where
    s1: "TodoService_createTodo s (newTodo uuid txt now) = Inr (newTodo uuid txt now, s1)"
      "TodoService_getTodoById s1 (id_t (newTodo uuid txt now)) = Inr (Some t1)"
      "t1\<lparr>updatedAt := None\<rparr> = (newTodo uuid txt now)\<lparr>updatedAt := None\<rparr>"
    by blast
  from s1(3) have "id_t t1 = uuid \<and> text_t t1 = txt \<and> \<not> completed t1 \<and> createdAt t1 = now"
    by (cases t1) (simp add: newTodo_def)
  with s1(1,2) show ?thesis
    by (simp add: newTodo_def)
next
  case False
  have "TodoService_getTodoById s (id_t (newTodo uuid txt now)) = Inr None"
    using assms(3) by (simp add: newTodo_def)
  from create_then_get_volatile[OF False this] show ?thesis
    by (auto simp: newTodo_def)
qed

text \<open>
  Every server start gives a state whose selected backend is available, and a Redis
  database that has the layout of createTodo keeps it through the seeding.
\<close>

lemma inv_create_each_caught:
  "redis_inv (client r) \<Longrightarrow> redis_inv (client (create_each_caught r ts))"
proof (induction ts arbitrary: r)
  case Nil
  then show ?case by simp
next
  case (Cons t ts)
  show ?case
  proof (cases "RedisService_createTodo r t")
    case (Inl e)
    with Cons.prems show ?thesis by simp
  next
    case (Inr p)
    obtain t1 r1 where p: "p = (t1, r1)"
      by (cases p)
    from inv_createTodo[OF Cons.prems] Inr p have "redis_inv (client r1)"
      by simp
    from Cons.IH[OF this] Inr p show ?thesis
      by simp
  qed
qed

lemma isConnected_create_each_caught:
  "isConnected (create_each_caught r ts) = isConnected r"
proof (induction ts arbitrary: r)
  case Nil
  then show ?case by simp
next
  case (Cons t ts)
  then show ?case
    by (auto simp: RedisService_createTodo_def Let_def split: sum.splits if_splits)
qed

lemma server_start_available:
  "backend_available (server_start reachable db0 m1 mt1 m2 mt2 u1 t1 u2 t2)"
  by (simp add: backend_available_def server_start_def connect_def initializeDefaultTodos_def
      isConnected_create_each_caught split: sum.splits)

lemma server_start_inv:
  "redis_inv db0 \<Longrightarrow>
   redis_inv (client (redisService (server_start reachable db0 m1 mt1 m2 mt2 u1 t1 u2 t2)))"
  by (simp add: server_start_def connect_def initializeDefaultTodos_def
      inv_create_each_caught split: sum.splits)

lemma empty_db_inv: "redis_inv empty_db"
  by (simp add: redis_inv_def empty_db_def)

text \<open>
  Operations that do not touch an id leave what is stored for it alone; the reading
  operations return, for an id, only what is stored for it.
\<close>

lemma filter_update_other:
  "k < length xs \<Longrightarrow> \<not> P (xs ! k) \<Longrightarrow> \<not> P y \<Longrightarrow> filter P (xs[k := y]) = filter P xs"
proof (induction xs arbitrary: k)
  case Nil
  then show ?case by simp
next
  case (Cons x xs)
  then show ?case
    by (cases k) auto
qed

lemma stored_step_volatile:
  assumes "untouched i [a]"
  shows "{x \<in> set (inMemoryTodos (step s a)). id_t x = i} \<subseteq> {x \<in> set (inMemoryTodos s). id_t x = i}"
proof (cases "useRedis s")
  case True
  then have "inMemoryTodos (step s a) = inMemoryTodos s"
    by (cases a)
       (auto simp: TodoService_createTodo_def TodoService_updateTodo_def
          TodoService_deleteTodo_def TodoService_getAllTodos_def
          split: sum.splits prod.splits)
  then show ?thesis by simp
next
  case False
  show ?thesis
  proof (cases a)
    case (Create t)
    with assms False show ?thesis
      by (auto simp: TodoService_createTodo_def)
  next
    case (Update j u now)
    show ?thesis
    proof (cases "findIndex (\<lambda>t. id_t t = j) (inMemoryTodos s)")
      case None
      with False Update show ?thesis
        by (simp add: TodoService_updateTodo_def)
    next
      case (Some k)
      let ?y = "apply_updates (inMemoryTodos s ! k) u now"
      from findIndex_Some[OF Some] have k: "k < length (inMemoryTodos s)"
          "id_t (inMemoryTodos s ! k) = j"
        by auto
      have y: "id_t ?y = j"
        using k(2) by (simp add: apply_updates_def Let_def split: option.splits)
      from assms Update have "j \<noteq> i" by simp
      with k y have "filter (\<lambda>x. id_t x = i) ((inMemoryTodos s)[k := ?y])
                       = filter (\<lambda>x. id_t x = i) (inMemoryTodos s)"
        by (intro filter_update_other) auto
      then have "set (filter (\<lambda>x. id_t x = i) ((inMemoryTodos s)[k := ?y]))
                       = set (filter (\<lambda>x. id_t x = i) (inMemoryTodos s))"
        by simp
      with False Update Some show ?thesis
        by (simp add: TodoService_updateTodo_def Let_def)
    qed
  next
    case (Delete j)
    show ?thesis
    proof (cases "findIndex (\<lambda>t. id_t t = j) (inMemoryTodos s)")
      case None
      with False Delete show ?thesis
        by (simp add: TodoService_deleteTodo_def)
    next
      case (Some k)
      have "set (take k (inMemoryTodos s) @ drop (Suc k) (inMemoryTodos s)) \<subseteq> set (inMemoryTodos s)"
        using set_take_subset[of k "inMemoryTodos s"] set_drop_subset[of "Suc k" "inMemoryTodos s"]
        by auto
      with False Delete Some show ?thesis
        by (auto simp: TodoService_deleteTodo_def)
    qed
  next
    case ListAll
    with False show ?thesis
      by (simp add: TodoService_getAllTodos_def Let_def set_js_sort)
  qed
qed

lemma stored_step_redis:
  assumes "untouched i [a]"
    and "hashes (client (redisService (step s a))) (TODO_PREFIX @ i) = Some h"
  shows "hashes (client (redisService s)) (TODO_PREFIX @ i) = Some h"
proof (cases "useRedis s \<and> isConnected (redisService s)")
  case False
  then have "redisService (step s a) = redisService s"
    by (cases a)
       (auto simp: TodoService_createTodo_def TodoService_updateTodo_def
          TodoService_deleteTodo_def TodoService_getAllTodos_def Let_def
          RedisService_createTodo_def RedisService_updateTodo_def RedisService_deleteTodo_def
          RedisService_getAllTodos_def
          split: sum.splits prod.splits option.splits)
  with assms(2) show ?thesis by simp
next
  case True
  then have u: "useRedis s" and c: "isConnected (redisService s)"
    by simp_all
  show ?thesis
  proof (cases a)
    case (Create t)
    with assms u c show ?thesis
      by (auto simp: TodoService_createTodo_def RedisService_createTodo_def Let_def
          hSet_def sAdd_def new_hash_def split: option.splits if_splits)
  next
    case (Update j u' now)
    with assms u c show ?thesis
      by (auto simp: TodoService_updateTodo_def RedisService_updateTodo_def Let_def
          getTodoById_connected hSet_def new_hash_def exists_key_def
          split: option.splits if_splits)
  next
    case (Delete j)
    with assms u c show ?thesis
      by (auto simp: TodoService_deleteTodo_def RedisService_deleteTodo_def Let_def
          getTodoById_connected del_def sRem_def
          split: option.splits if_splits)
  next
    case ListAll
    with assms u c show ?thesis
      by (auto simp: TodoService_getAllTodos_def getAllTodos_connected)
  qed
qed

lemma stored_step: "untouched i [a] \<Longrightarrow> stored_items (step s a) i \<subseteq> stored_items s i"
  using stored_step_volatile[of i a s] stored_step_redis[of i a s]
  by (auto simp: stored_items_def useRedis_step)

lemma untouched_Cons: "untouched i (a # ops) = (untouched i [a] \<and> untouched i ops)"
  by (cases a) simp_all

lemma stored_run: "untouched i ops \<Longrightarrow> stored_items (run s ops) i \<subseteq> stored_items s i"
proof (induction ops arbitrary: s)
  case Nil
  then show ?case by (simp add: run_def)
next
  case (Cons a ops)
  from Cons.prems have a: "untouched i [a]" and o: "untouched i ops"
    using untouched_Cons[of i a ops] by simp_all
  from Cons.IH[OF o, of "step s a"] stored_step[OF a, of s] show ?case
    by (auto simp: run_Cons)
qed

lemma reads_from_stored:
  assumes "backend_available s"
    and "useRedis s \<longrightarrow> redis_inv (client (redisService s))"
    and "\<forall>t\<in>stored_items s i. updatedAt t = w t"
  shows "reads_show s i w"
proof (cases "useRedis s")
  case False
  let ?xs = "inMemoryTodos s"
  let ?p = "\<lambda>x. id_t x = i"
  from assms(3) False have st: "\<And>x. x \<in> set ?xs \<Longrightarrow> id_t x = i \<Longrightarrow> updatedAt x = w x"
    by (simp add: stored_items_def)
  have g: "\<exists>r. TodoService_getTodoById s i = Inr r \<and> (\<forall>t. r = Some t \<longrightarrow> updatedAt t = w t)"
    using False st by (auto simp: TodoService_getTodoById_def find_Some_iff)
  have l: "\<exists>ts s'. TodoService_getAllTodos s = Inr (ts, s')
             \<and> (\<forall>t\<in>set ts. id_t t = i \<longrightarrow> updatedAt t = w t)"
    using False st by (simp add: TodoService_getAllTodos_def Let_def set_js_sort)
  have d: "\<exists>r s'. TodoService_deleteTodo s i = Inr (r, s')
             \<and> (\<forall>t. r = Some t \<longrightarrow> updatedAt t = w t)"
  proof (cases "findIndex ?p ?xs")
    case None
    with False show ?thesis
      by (simp add: TodoService_deleteTodo_def)
  next
    case (Some k)
    from findIndex_Some[OF Some] have "?xs ! k \<in> set ?xs" "id_t (?xs ! k) = i"
      by auto
    from st[OF this] False Some show ?thesis
      by (simp add: TodoService_deleteTodo_def)
  qed
  from g l d show ?thesis
    by (simp add: reads_show_def)
next
  case True
  let ?db = "client (redisService s)"
  from True assms(1,2) have c: "isConnected (redisService s)" and inv: "redis_inv ?db"
    by (simp_all add: backend_available_def)
  from assms(3) True have st: "\<And>h. hashes ?db (TODO_PREFIX @ i) = Some h
        \<Longrightarrow> updatedAt (todo_of_hash h) = w (todo_of_hash h)"
    by (auto simp: stored_items_def)
  have g: "\<exists>r. TodoService_getTodoById s i = Inr r \<and> (\<forall>t. r = Some t \<longrightarrow> updatedAt t = w t)"
    using True c st
    by (auto simp: TodoService_getTodoById_def getTodoById_connected split: option.splits)
  have l: "\<exists>ts s'. TodoService_getAllTodos s = Inr (ts, s')
             \<and> (\<forall>t\<in>set ts. id_t t = i \<longrightarrow> updatedAt t = w t)"
  proof -
    let ?ts = "js_sort newest_first (fetch_todos ?db (todos_all ?db))"
    have "updatedAt t = w t" if "t \<in> set ?ts" "id_t t = i" for t
    proof -
      from that(1) obtain j h where h: "hashes ?db (TODO_PREFIX @ j) = Some h"
          "t = todo_of_hash h"
        using fetch_todos_mem by (fastforce simp: set_js_sort)
      from h(1) inv have "TODO_PREFIX @ j = TODO_PREFIX @ h_id h"
        by (auto simp: redis_inv_def)
      moreover from h(2) that(2) have "h_id h = i"
        by (simp add: todo_of_hash_def)
      ultimately have "hashes ?db (TODO_PREFIX @ i) = Some h"
        using h(1) by simp
      from st[OF this] h(2) show ?thesis
        by simp
    qed
    then show ?thesis
      using True c by (simp add: TodoService_getAllTodos_def getAllTodos_connected)
  qed
  have d: "\<exists>r s'. TodoService_deleteTodo s i = Inr (r, s')
             \<and> (\<forall>t. r = Some t \<longrightarrow> updatedAt t = w t)"
    using True c st
    by (auto simp: TodoService_deleteTodo_def RedisService_deleteTodo_def
        getTodoById_connected split: option.splits)
  from g l d show ?thesis
    by (simp add: reads_show_def)
qed

lemma reads_after_run:
  assumes "backend_available s"
    and "useRedis s \<longrightarrow> redis_inv (client (redisService s))"
    and "\<forall>t\<in>stored_items s i. updatedAt t = w t"
    and "untouched i ops"
  shows "reads_show (run s ops) i w"
proof -
  have "backend_available (run s ops)"
    using assms(1) by (simp add: backend_available_run)
  moreover have "useRedis (run s ops) \<longrightarrow> redis_inv (client (redisService (run s ops)))"
    using assms(2) by (simp add: useRedis_run inv_run)
  moreover have "\<forall>t\<in>stored_items (run s ops) i. updatedAt t = w t"
    using stored_run[OF assms(4), of s] assms(3) by blast
  ultimately show ?thesis
    by (rule reads_from_stored)
qed

lemma stored_after_create:
  assumes "backend_available s"
    and "useRedis s \<longrightarrow> redis_inv (client (redisService s))"
    and "uuid \<noteq> []"
    and "TodoService_getTodoById s uuid = Inr None"
  shows "\<exists>s1. TodoService_createTodo s (newTodo uuid txt c) = Inr (newTodo uuid txt c, s1)
           \<and> s1 = step s (Create (newTodo uuid txt c))
           \<and> stored_items s1 uuid
               = {(newTodo uuid txt c)\<lparr>updatedAt := (if useRedis s then Some c else None)\<rparr>}"
proof (cases "useRedis s")
  case False
  from assms(4) False have "\<forall>x\<in>set (inMemoryTodos s). id_t x \<noteq> uuid"
    by (auto simp: TodoService_getTodoById_def find_None_iff)
  with False show ?thesis
    by (auto simp: TodoService_createTodo_def stored_items_def newTodo_def)
next
  case True
  let ?db = "client (redisService s)"
  from True assms(1,2) have con: "isConnected (redisService s)" and inv: "redis_inv ?db"
    by (simp_all add: backend_available_def)
  have n: "hashes ?db (TODO_PREFIX @ uuid) = None"
  proof (cases "hashes ?db (TODO_PREFIX @ uuid)")
    case None
    then show ?thesis .
  next
    case (Some h)
    with inv have "h_id h = uuid"
      by (auto simp: redis_inv_def)
    with Some assms(3,4) True con show ?thesis
      by (simp add: TodoService_getTodoById_def getTodoById_connected)
  qed
  with True con show ?thesis
    by (auto simp: TodoService_createTodo_def RedisService_createTodo_def stored_items_def
        newTodo_def hSet_def new_hash_def sAdd_def todo_of_hash_def bool_toString_def Let_def)
qed

lemma stored_after_update_volatile:
  assumes "\<not> useRedis s" and "distinct (map id_t (inMemoryTodos s))"
    and "findIndex (\<lambda>x. id_t x = i) (inMemoryTodos s) = Some k" and "id_t y = i"
  shows "{x \<in> set ((inMemoryTodos s)[k := y]). id_t x = i} \<subseteq> {y}"
proof
  fix x
  let ?xs = "inMemoryTodos s"
  assume "x \<in> {x \<in> set (?xs[k := y]). id_t x = i}"
  then obtain j where j: "j < length ?xs" "x = (?xs[k := y]) ! j" "id_t x = i"
    by (auto simp: in_set_conv_nth)
  from findIndex_Some[OF assms(3)] have k: "k < length ?xs" "id_t (?xs ! k) = i"
    by auto
  have "j = k"
  proof (rule ccontr)
    assume "j \<noteq> k"
    with j have "id_t (?xs ! j) = i"
      by simp
    with k(2) have "map id_t ?xs ! j = map id_t ?xs ! k"
      using j(1) k(1) by simp
    with assms(2) j(1) k(1) have "j = k"
      by (metis length_map nth_eq_iff_index_eq)
    with \<open>j \<noteq> k\<close> show False by simp
  qed
  with j k(1) show "x \<in> {y}"
    by simp
qed

lemma stored_after_update:
  assumes "TodoService_getTodoById s i = Inr (Some t)"
    and "\<not> useRedis s \<longrightarrow> distinct (map id_t (inMemoryTodos s))"
  shows "\<exists>s2. TodoService_updateTodo s i u now = Inr (Some (apply_updates t u now), s2)
           \<and> s2 = step s (Update i u now)
           \<and> (\<forall>x\<in>stored_items s2 i. updatedAt x = Some now)"
proof (cases "useRedis s")
  case False
  let ?p = "\<lambda>x. id_t x = i"
  let ?xs = "inMemoryTodos s"
  from assms(1) False have "find ?p ?xs = Some t"
    by (simp add: TodoService_getTodoById_def)
  then obtain k where k: "findIndex ?p ?xs = Some k" "?xs ! k = t"
    by (auto simp: find_findIndex)
  from findIndex_Some[OF k(1)] k(2) have "id_t t = i"
    by simp
  then have y: "id_t (apply_updates t u now) = i" "updatedAt (apply_updates t u now) = Some now"
    by (simp_all add: apply_updates_def Let_def split: option.splits)
  from assms(2) False have "distinct (map id_t ?xs)"
    by simp
  from stored_after_update_volatile[OF False this k(1) y(1)] y(2)
  have "\<forall>x\<in>{x \<in> set (?xs[k := apply_updates t u now]). id_t x = i}. updatedAt x = Some now"
    by auto
  with False k show ?thesis
    by (simp add: TodoService_updateTodo_def stored_items_def Let_def)
next
  case True
  let ?r = "redisService s"
  from assms(1) True have g: "RedisService_getTodoById ?r i = Inr (Some t)"
    by (simp add: TodoService_getTodoById_def)
  then have c: "isConnected ?r"
    by (auto simp: RedisService_getTodoById_def split: if_splits)
  from g c obtain h where h: "hashes (client ?r) (TODO_PREFIX @ i) = Some h" "h_id h \<noteq> []"
      "t = todo_of_hash h"
    by (auto simp: getTodoById_connected split: option.splits if_splits)
  from update_existing_redis[OF True assms(1), of u now] obtain s2 where
    s2: "TodoService_updateTodo s i u now = Inr (Some (apply_updates t u now), s2)"
    by blast
  then have e: "s2 = step s (Update i u now)"
    by simp
  have "\<forall>x\<in>stored_items s2 i. updatedAt x = Some now"
    unfolding e using True c h(1) g
    by (auto simp: stored_items_def TodoService_updateTodo_def RedisService_updateTodo_def
        exists_key_def hSet_def merge_fields_def todo_of_hash_def getTodoById_connected Let_def
        split: option.splits if_splits)
  with s2 e show ?thesis
    by blast
qed

lemma redis_results_updatedAt:
  assumes "useRedis s"
  shows "(\<forall>i t. TodoService_getTodoById s i = Inr (Some t) \<longrightarrow> updatedAt t \<noteq> None)
       \<and> (\<forall>ts s'. TodoService_getAllTodos s = Inr (ts, s') \<longrightarrow> (\<forall>t\<in>set ts. updatedAt t \<noteq> None))
       \<and> (\<forall>i u now t s'. TodoService_updateTodo s i u now = Inr (Some t, s')
             \<longrightarrow> updatedAt t \<noteq> None)
       \<and> (\<forall>i t s'. TodoService_deleteTodo s i = Inr (Some t, s') \<longrightarrow> updatedAt t \<noteq> None)"
proof -
  have g: "updatedAt t \<noteq> None" if "RedisService_getTodoById r i = Inr (Some t)" for r i t
    using that
    by (auto simp: RedisService_getTodoById_def todo_of_hash_def
        split: if_splits option.splits)
  have a: "\<forall>i t. TodoService_getTodoById s i = Inr (Some t) \<longrightarrow> updatedAt t \<noteq> None"
    using assms g by (auto simp: TodoService_getTodoById_def)
  have b: "\<forall>ts s'. TodoService_getAllTodos s = Inr (ts, s')
             \<longrightarrow> (\<forall>t\<in>set ts. updatedAt t \<noteq> None)"
    using listed_updatedAt_redis[OF assms] by blast
  have c: "\<forall>i u now t s'. TodoService_updateTodo s i u now = Inr (Some t, s')
             \<longrightarrow> updatedAt t \<noteq> None"
    using assms g
    by (auto simp: TodoService_updateTodo_def RedisService_updateTodo_def Let_def
        split: if_splits sum.splits prod.splits)
  have d: "\<forall>i t s'. TodoService_deleteTodo s i = Inr (Some t, s') \<longrightarrow> updatedAt t \<noteq> None"
    using assms g
    by (auto simp: TodoService_deleteTodo_def RedisService_deleteTodo_def Let_def
        split: if_splits sum.splits prod.splits option.splits)
  from a b c d show ?thesis
    by blast
qed

lemma length_filter_js_sort: "length (filter P (js_sort cmp xs)) = length (filter P xs)"
proof -
  have "mset (filter P (js_sort cmp xs)) = mset (filter P xs)"
    by (simp add: mset_js_sort)
  then show ?thesis
    by (metis size_mset)
qed

lemma stats_of_listing:
  assumes "backend_available s"
  shows "\<exists>ts s'. TodoService_getAllTodos s = Inr (ts, s')
           \<and> TodoService_getStats s = Inr (stats_of ts)
           \<and> (\<not> useRedis s \<longrightarrow> mset ts = mset (inMemoryTodos s))"
proof (cases "useRedis s")
  case True
  with assms have "isConnected (redisService s)"
    by (simp add: backend_available_def)
  with True show ?thesis
    by (simp add: TodoService_getAllTodos_def TodoService_getStats_def RedisService_getStats_def
        getAllTodos_connected)
next
  case False
  have "stats_of (js_sort newest_first (inMemoryTodos s)) = stats_of (inMemoryTodos s)"
    by (simp add: stats_of_def length_filter_js_sort
        length_filter_js_sort[of "\<lambda>t. True", simplified])
  with False show ?thesis
    by (simp add: TodoService_getAllTodos_def TodoService_getStats_def Let_def mset_js_sort)
qed

section \<open>The claims\<close>

subsection \<open>C1: what a fresh start lists\<close>

text \<open>
  Claim C1, as the code has it. A start with Redis unreachable leaves \<^verbatim>\<open>useRedis\<close> false and
  lists the two in-memory defaults; a start on an empty Redis (seed ids non-empty and
  different, as \<^verbatim>\<open>uuid.v4()\<close> gives them) lists the two Redis defaults. Both listings hold
  one pending welcome Item and one completed pipeline Item, and when the clock moved
  between the two seeds both show the completed one first. The texts are those of each
  seed list: the Redis ones end in "with Redis!" and "with Redis database", the
  in-memory ones do not.
\<close>

theorem fallback_seeding_flags:
  assumes "u1 \<noteq> []" and "u2 \<noteq> []" and "u1 \<noteq> u2"
  shows "\<exists>vs sv ds sd.
      \<not> useRedis (server_start False db0 m1 mt1 m2 mt2 u1 t1 u2 t2)
    \<and> TodoService_getAllTodos (server_start False db0 m1 mt1 m2 mt2 u1 t1 u2 t2) = Inr (vs, sv)
    \<and> TodoService_getAllTodos (server_start True empty_db m1 mt1 m2 mt2 u1 t1 u2 t2)
        = Inr (ds, sd)
    \<and> mset (map (\<lambda>t. (text_t t, completed t)) vs)
        = {#(''Welcome to your DevOps To-Do App!'', False), (''Set up CI/CD pipeline'', True)#}
    \<and> mset (map (\<lambda>t. (text_t t, completed t)) ds)
        = {#(''Welcome to your DevOps To-Do App with Redis!'', False),
            (''Set up CI/CD pipeline with Redis database'', True)#}
    \<and> (mt1 < mt2 \<and> t1 < t2 \<longrightarrow>
          map completed vs = [True, False] \<and> map completed ds = [True, False])"
proof -
  let ?vs = "js_sort newest_first (initial_inMemoryTodos m1 mt1 m2 mt2)"
  let ?ds = "js_sort newest_first
              (map (\<lambda>t. t\<lparr>updatedAt := Some (createdAt t)\<rparr>) (redis_defaultTodos u1 t1 u2 t2))"
  have u: "\<not> useRedis (server_start False db0 m1 mt1 m2 mt2 u1 t1 u2 t2)"
    by (simp add: server_start_def connect_def)
  have v: "mset (map (\<lambda>t. (text_t t, completed t)) ?vs)
        = {#(''Welcome to your DevOps To-Do App!'', False), (''Set up CI/CD pipeline'', True)#}"
    by (simp add: mset_js_sort initial_inMemoryTodos_def)
  have d: "mset (map (\<lambda>t. (text_t t, completed t)) ?ds)
        = {#(''Welcome to your DevOps To-Do App with Redis!'', False),
            (''Set up CI/CD pipeline with Redis database'', True)#}"
    by (simp add: mset_js_sort redis_defaultTodos_def)
  have o: "map completed ?vs = [True, False] \<and> map completed ?ds = [True, False]"
    if "mt1 < mt2 \<and> t1 < t2"
    using that
    by (simp add: js_sort_def newest_first_def initial_inMemoryTodos_def redis_defaultTodos_def)
  note l = volatile_start_list[of db0 m1 mt1 m2 mt2 u1 t1 u2 t2]
    durable_start_list[OF assms, of m1 mt1 m2 mt2 t1 t2]
  show ?thesis
    by (intro exI[of _ ?vs] exI[of _ ?ds] exI conjI impI) (use u v d o l in blast)+
qed

theorem fallback_seeding_flags_witness:
  "''s1'' \<noteq> [] \<and> ''s2'' \<noteq> [] \<and> ''s1'' \<noteq> ''s2''
   \<and> (\<exists>vs sv ds sd.
      \<not> useRedis (server_start False empty_db ''s1'' 10 ''s2'' 11 ''s1'' 10 ''s2'' 11)
    \<and> TodoService_getAllTodos (server_start False empty_db ''s1'' 10 ''s2'' 11 ''s1'' 10 ''s2'' 11)
        = Inr (vs, sv)
    \<and> TodoService_getAllTodos (server_start True empty_db ''s1'' 10 ''s2'' 11 ''s1'' 10 ''s2'' 11)
        = Inr (ds, sd)
    \<and> mset (map (\<lambda>t. (text_t t, completed t)) vs)
        = {#(''Welcome to your DevOps To-Do App!'', False), (''Set up CI/CD pipeline'', True)#}
    \<and> mset (map (\<lambda>t. (text_t t, completed t)) ds)
        = {#(''Welcome to your DevOps To-Do App with Redis!'', False),
            (''Set up CI/CD pipeline with Redis database'', True)#}
    \<and> map completed vs = [True, False] \<and> map completed ds = [True, False])"
proof -
  have a: "''s1'' \<noteq> []" "''s2'' \<noteq> []" "''s1'' \<noteq> ''s2''"
    by simp_all
  from fallback_seeding_flags[OF a, of empty_db "''s1''" 10 "''s2''" 11 10 11] a
  show ?thesis
    by simp
qed

text \<open>
  The two listings do not carry the same texts: with equal ids and clock readings for
  both seed lists, the in-memory start and the Redis start list different strings.
\<close>

theorem fallback_seeding_counterexample:
  "map_sum id (map text_t \<circ> fst) (TodoService_getAllTodos demo_volatile)
     = Inr [''Welcome to your DevOps To-Do App!'', ''Set up CI/CD pipeline'']
   \<and> map_sum id (map text_t \<circ> fst) (TodoService_getAllTodos demo_durable)
     = Inr [''Welcome to your DevOps To-Do App with Redis!'',
            ''Set up CI/CD pipeline with Redis database'']
   \<and> map_sum id (map text_t \<circ> fst) (TodoService_getAllTodos demo_volatile)
     \<noteq> map_sum id (map text_t \<circ> fst) (TodoService_getAllTodos demo_durable)"
  by (simp add: demo_volatile_def demo_durable_def eval_defs)

subsection \<open>C2: when updatedAt is present\<close>

text \<open>
  Claim C2, as the code has it. createTodo returns the Item it was given, so the Item
  the POST handler builds comes back without \<^verbatim>\<open>updatedAt\<close>. For an Item created under
  a non-empty id that is not in the dataset, and for as long as it is not updated and its
  id is not handed to createTodo again: on the in-memory backend getTodoById, getAllTodos
  and deleteTodo return it without \<^verbatim>\<open>updatedAt\<close>; on Redis they return it with
  \<^verbatim>\<open>updatedAt\<close> equal to its \<^verbatim>\<open>createdAt\<close>. The same holds in memory for every stored
  Item without \<^verbatim>\<open>updatedAt\<close>, the two defaults included. On both backends updateTodo on
  an existing id returns, and stores, the Item with \<^verbatim>\<open>updatedAt\<close> equal to the time of
  that update, and (the in-memory list holding no two Items with one id) getTodoById,
  getAllTodos and deleteTodo return it with that value until it is updated or created
  again. On Redis every Item returned by getTodoById, getAllTodos, updateTodo or
  deleteTodo has an \<^verbatim>\<open>updatedAt\<close>.
\<close>

theorem updatedAt_lifecycle:
  assumes "backend_available s"
    and "useRedis s \<longrightarrow> redis_inv (client (redisService s))"
  shows "(uuid \<noteq> [] \<and> TodoService_getTodoById s uuid = Inr None \<longrightarrow>
           (\<exists>s1 t1. TodoService_createTodo s (newTodo uuid txt c) = Inr (newTodo uuid txt c, s1)
              \<and> updatedAt (newTodo uuid txt c) = None
              \<and> TodoService_getTodoById s1 uuid = Inr (Some t1)
              \<and> updatedAt t1 = (if useRedis s then Some c else None)
              \<and> (\<forall>ops. untouched uuid ops \<longrightarrow>
                    reads_show (run s1 ops) uuid
                      (\<lambda>t. if useRedis s then Some (createdAt t) else None))))
         \<and> (\<forall>i t u now. TodoService_getTodoById s i = Inr (Some t) \<longrightarrow>
               (\<exists>t2 s2. TodoService_updateTodo s i u now = Inr (Some t2, s2)
                   \<and> updatedAt t2 = Some now
                   \<and> TodoService_getTodoById s2 i = Inr (Some t2)
                   \<and> ((\<not> useRedis s \<longrightarrow> distinct (map id_t (inMemoryTodos s))) \<longrightarrow>
                        (\<forall>ops. untouched i ops \<longrightarrow>
                           reads_show (run s2 ops) i (\<lambda>t. Some now)))))
         \<and> (\<forall>i ops. \<not> useRedis s
               \<and> (\<forall>x\<in>set (inMemoryTodos s). id_t x = i \<longrightarrow> updatedAt x = None)
               \<and> untouched i ops
               \<longrightarrow> reads_show (run s ops) i (\<lambda>t. None))
         \<and> (useRedis s \<longrightarrow>
               (\<forall>i t. TodoService_getTodoById s i = Inr (Some t) \<longrightarrow> updatedAt t \<noteq> None)
             \<and> (\<forall>ts s'. TodoService_getAllTodos s = Inr (ts, s') \<longrightarrow>
                  (\<forall>t\<in>set ts. updatedAt t \<noteq> None))
             \<and> (\<forall>i u now t s'. TodoService_updateTodo s i u now = Inr (Some t, s')
                  \<longrightarrow> updatedAt t \<noteq> None)
             \<and> (\<forall>i t s'. TodoService_deleteTodo s i = Inr (Some t, s')
                  \<longrightarrow> updatedAt t \<noteq> None))"
proof -
  have cr: "\<exists>s1 t1. TodoService_createTodo s (newTodo uuid txt c) = Inr (newTodo uuid txt c, s1)
              \<and> updatedAt (newTodo uuid txt c) = None
              \<and> TodoService_getTodoById s1 uuid = Inr (Some t1)
              \<and> updatedAt t1 = (if useRedis s then Some c else None)
              \<and> (\<forall>ops. untouched uuid ops \<longrightarrow>
                    reads_show (run s1 ops) uuid
                      (\<lambda>t. if useRedis s then Some (createdAt t) else None))"
    if f: "uuid \<noteq> [] \<and> TodoService_getTodoById s uuid = Inr None"
  proof -
    let ?w = "\<lambda>t. if useRedis s then Some (createdAt t) else None"
    from f have f1: "uuid \<noteq> []" and f2: "TodoService_getTodoById s uuid = Inr None"
      by simp_all
    from stored_after_create[OF assms f1 f2, of "txt" c] obtain s1 where
      s1: "TodoService_createTodo s (newTodo uuid txt c) = Inr (newTodo uuid txt c, s1)"
        "s1 = step s (Create (newTodo uuid txt c))"
        "stored_items s1 uuid
           = {(newTodo uuid txt c)\<lparr>updatedAt := (if useRedis s then Some c else None)\<rparr>}"
      by blast
    have av: "backend_available s1"
      using assms(1) unfolding s1(2) backend_available_step .
    have iv: "useRedis s1 \<longrightarrow> redis_inv (client (redisService s1))"
      using assms(2) inv_step unfolding s1(2) useRedis_step by blast
    have st: "\<forall>t\<in>stored_items s1 uuid. updatedAt t = ?w t"
      by (simp add: s1(3) newTodo_def)
    from create_then_get[OF assms(1) f1 f2, of "txt" c] s1(1) obtain t1 where
      t1: "TodoService_getTodoById s1 uuid = Inr (Some t1)" "createdAt t1 = c"
      by auto
    from reads_from_stored[OF av iv st] t1(1) have "updatedAt t1 = ?w t1"
      by (simp add: reads_show_def)
    with t1(2) have u1: "updatedAt t1 = (if useRedis s then Some c else None)"
      by simp
    have "reads_show (run s1 ops) uuid ?w" if "untouched uuid ops" for ops
      using reads_after_run[OF av iv st that] .
    with s1(1) t1(1) u1 show ?thesis
      by (auto simp: newTodo_def)
  qed
  have upd: "\<exists>t2 s2. TodoService_updateTodo s i u now = Inr (Some t2, s2)
                   \<and> updatedAt t2 = Some now
                   \<and> TodoService_getTodoById s2 i = Inr (Some t2)
                   \<and> ((\<not> useRedis s \<longrightarrow> distinct (map id_t (inMemoryTodos s))) \<longrightarrow>
                        (\<forall>ops. untouched i ops \<longrightarrow>
                           reads_show (run s2 ops) i (\<lambda>t. Some now)))"
    if g: "TodoService_getTodoById s i = Inr (Some t)" for i t u now
  proof -
    from update_existing[OF g, of u now] obtain s2 where
      s2: "TodoService_updateTodo s i u now = Inr (Some (apply_updates t u now), s2)"
        "TodoService_getTodoById s2 i = Inr (Some (apply_updates t u now))"
      by blast
    then have e: "s2 = step s (Update i u now)"
      by simp
    have av: "backend_available s2"
      using assms(1) unfolding e backend_available_step .
    have iv: "useRedis s2 \<longrightarrow> redis_inv (client (redisService s2))"
      using assms(2) inv_step unfolding e useRedis_step by blast
    have "reads_show (run s2 ops) i (\<lambda>t. Some now)"
      if d: "\<not> useRedis s \<longrightarrow> distinct (map id_t (inMemoryTodos s))" and o: "untouched i ops"
      for ops
    proof -
      from stored_after_update[OF g d, of u now] s2(1)
      have "\<forall>x\<in>stored_items s2 i. updatedAt x = Some now"
        by auto
      from reads_after_run[OF av iv this o] show ?thesis .
    qed
    with s2 show ?thesis
      by (intro exI[of _ "apply_updates t u now"] exI[of _ s2])
         (simp add: apply_updates_def Let_def)
  qed
  have vol: "reads_show (run s ops) i (\<lambda>t. None)"
    if "\<not> useRedis s \<and> (\<forall>x\<in>set (inMemoryTodos s). id_t x = i \<longrightarrow> updatedAt x = None)
        \<and> untouched i ops" for i ops
  proof -
    from that have "\<forall>t\<in>stored_items s i. updatedAt t = None" and o: "untouched i ops"
      by (simp_all add: stored_items_def)
    from reads_after_run[OF assms this] show ?thesis .
  qed
  from cr upd vol redis_results_updatedAt[of s] show ?thesis
    by blast
qed

theorem updatedAt_lifecycle_witness:
  "backend_available demo_durable
   \<and> useRedis demo_durable \<and> redis_inv (client (redisService demo_durable))
   \<and> ''a'' \<noteq> []
   \<and> TodoService_getTodoById demo_durable ''a'' = Inr None
   \<and> untouched ''a'' [Create (newTodo ''b'' ''B'' 31), ListAll,
                      Update ''s1'' \<lparr>u_text = Some ''x'', u_completed = None\<rparr> 35]
   \<and> (\<exists>s1 t1. TodoService_createTodo demo_durable (newTodo ''a'' ''A'' 30)
                  = Inr (newTodo ''a'' ''A'' 30, s1)
           \<and> TodoService_getTodoById s1 ''a'' = Inr (Some t1)
           \<and> updatedAt t1 = Some 30
           \<and> reads_show
                (run s1 [Create (newTodo ''b'' ''B'' 31), ListAll,
                         Update ''s1'' \<lparr>u_text = Some ''x'', u_completed = None\<rparr> 35])
                ''a'' (\<lambda>t. Some (createdAt t)))
   \<and> TodoService_getTodoById demo_durable ''s1''
       = Inr (Some \<lparr>id_t = ''s1'', text_t = ''Welcome to your DevOps To-Do App with Redis!'',
                    completed = False, createdAt = 10, updatedAt = Some 10\<rparr>)
   \<and> untouched ''s1'' [ListAll, Delete ''s2'']
   \<and> (\<exists>t2 s2. TodoService_updateTodo demo_durable ''s1''
                  \<lparr>u_text = None, u_completed = Some True\<rparr> 40 = Inr (Some t2, s2)
           \<and> updatedAt t2 = Some 40
           \<and> TodoService_getTodoById s2 ''s1'' = Inr (Some t2)
           \<and> reads_show (run s2 [ListAll, Delete ''s2'']) ''s1'' (\<lambda>t. Some 40))
   \<and> backend_available demo_volatile \<and> \<not> useRedis demo_volatile
   \<and> updatedAt (inMemoryTodos demo_volatile ! 0) = None
   \<and> id_t (inMemoryTodos demo_volatile ! 0) = ''s1''
   \<and> reads_show (run demo_volatile [Create (newTodo ''b'' ''B'' 31), ListAll]) ''s1'' (\<lambda>t. None)"
proof -
  let ?ops1 = "[Create (newTodo ''b'' ''B'' 31), ListAll,
                Update ''s1'' \<lparr>u_text = Some ''x'', u_completed = None\<rparr> 35]"
  let ?ops2 = "[ListAll, Delete ''s2'']"
  let ?seed = "\<lparr>id_t = ''s1'', text_t = ''Welcome to your DevOps To-Do App with Redis!'',
                completed = False, createdAt = 10, updatedAt = Some 10\<rparr>"
  have a: "backend_available demo_durable"
    by (simp add: demo_durable_def backend_available_def eval_defs)
  have u: "useRedis demo_durable"
    by (simp add: demo_durable_def eval_defs)
  have i: "redis_inv (client (redisService demo_durable))"
    by (simp add: demo_durable_def redis_inv_def eval_defs)
  then have b: "useRedis demo_durable \<longrightarrow> redis_inv (client (redisService demo_durable))"
    by simp
  have c: "''a'' \<noteq> []"
    by simp
  have d: "TodoService_getTodoById demo_durable ''a'' = Inr None"
    by (simp add: demo_durable_def eval_defs)
  have o1: "untouched ''a'' ?ops1"
    by (simp add: newTodo_def)
  have e: "TodoService_getTodoById demo_durable ''s1'' = Inr (Some ?seed)"
    by (simp add: demo_durable_def eval_defs)
  have o2: "untouched ''s1'' ?ops2"
    by simp
  note th = updatedAt_lifecycle[OF a b, of "''a''" "''A''" 30]
  note th1 = th[THEN conjunct1, THEN mp, OF conjI[OF c d]]
  note th2 = th[THEN conjunct2, THEN conjunct1, rule_format, OF e,
      of "\<lparr>u_text = None, u_completed = Some True\<rparr>" 40]
  from th1 obtain s1 t1 where
    s1: "TodoService_createTodo demo_durable (newTodo ''a'' ''A'' 30)
           = Inr (newTodo ''a'' ''A'' 30, s1)"
      "TodoService_getTodoById s1 ''a'' = Inr (Some t1)"
      "updatedAt t1 = (if useRedis demo_durable then Some 30 else None)"
      "\<forall>ops. untouched ''a'' ops \<longrightarrow>
         reads_show (run s1 ops) ''a''
           (\<lambda>t. if useRedis demo_durable then Some (createdAt t) else None)"
    by blast
  from s1(3,4) u o1 have p1: "updatedAt t1 = Some 30"
      "reads_show (run s1 ?ops1) ''a'' (\<lambda>t. Some (createdAt t))"
    by simp_all
  from th2 obtain t2 s2 where
    s2: "TodoService_updateTodo demo_durable ''s1''
           \<lparr>u_text = None, u_completed = Some True\<rparr> 40 = Inr (Some t2, s2)"
      "updatedAt t2 = Some 40"
      "TodoService_getTodoById s2 ''s1'' = Inr (Some t2)"
      "(\<not> useRedis demo_durable \<longrightarrow> distinct (map id_t (inMemoryTodos demo_durable))) \<longrightarrow>
         (\<forall>ops. untouched ''s1'' ops \<longrightarrow> reads_show (run s2 ops) ''s1'' (\<lambda>t. Some 40))"
    by blast
  from s2(4) u o2 have p2: "reads_show (run s2 ?ops2) ''s1'' (\<lambda>t. Some 40)"
    by simp
  have va: "backend_available demo_volatile"
    by (simp add: demo_volatile_def backend_available_def eval_defs)
  have vu: "\<not> useRedis demo_volatile"
    by (simp add: demo_volatile_def eval_defs)
  then have vb: "useRedis demo_volatile \<longrightarrow> redis_inv (client (redisService demo_volatile))"
    by simp
  have vs: "\<forall>x\<in>set (inMemoryTodos demo_volatile). id_t x = ''s1'' \<longrightarrow> updatedAt x = None"
    by (simp add: demo_volatile_def eval_defs)
  have vh: "updatedAt (inMemoryTodos demo_volatile ! 0) = None"
      "id_t (inMemoryTodos demo_volatile ! 0) = ''s1''"
    by (simp_all add: demo_volatile_def eval_defs)
  have vo: "untouched ''s1'' [Create (newTodo ''b'' ''B'' 31), ListAll]"
    by (simp add: newTodo_def)
  from updatedAt_lifecycle[OF va vb, THEN conjunct2, THEN conjunct2, THEN conjunct1,
      rule_format, OF conjI[OF vu conjI[OF vs vo]]]
  have p3: "reads_show (run demo_volatile [Create (newTodo ''b'' ''B'' 31), ListAll])
              ''s1'' (\<lambda>t. None)"
    by blast
  from s1(1,2) p1 have x1: "\<exists>s1 t1. TodoService_createTodo demo_durable (newTodo ''a'' ''A'' 30)
                  = Inr (newTodo ''a'' ''A'' 30, s1)
           \<and> TodoService_getTodoById s1 ''a'' = Inr (Some t1)
           \<and> updatedAt t1 = Some 30
           \<and> reads_show (run s1 ?ops1) ''a'' (\<lambda>t. Some (createdAt t))"
    by blast
  from s2(1,2,3) p2 have x2: "\<exists>t2 s2. TodoService_updateTodo demo_durable ''s1''
                  \<lparr>u_text = None, u_completed = Some True\<rparr> 40 = Inr (Some t2, s2)
           \<and> updatedAt t2 = Some 40
           \<and> TodoService_getTodoById s2 ''s1'' = Inr (Some t2)
           \<and> reads_show (run s2 ?ops2) ''s1'' (\<lambda>t. Some 40)"
    by blast
  from a u i c d o1 x1 e o2 x2 va vu vh p3 show ?thesis
    by (intro conjI)
qed

text \<open>
  On Redis an Item read back right after its creation, before any update, already
  carries an \<^verbatim>\<open>updatedAt\<close>.
\<close>

theorem updatedAt_absent_counterexample:
  "TodoService_getTodoById (step demo_durable (Create (newTodo ''a'' ''A'' 30))) ''a''
     = Inr (Some \<lparr>id_t = ''a'', text_t = ''A'', completed = False, createdAt = 30,
                  updatedAt = Some 30\<rparr>)"
  by (simp add: demo_durable_def newTodo_def eval_defs)

subsection \<open>C3: what the listing returns can be fetched\<close>

text \<open>
  Claim C3. Start from any state in which the selected backend is available and, for
  Redis, every stored hash sits under the key of its own id (createTodo writes hashes no
  other way). After any sequence of create, update, delete and list operations the
  listing succeeds, and for every id in its result getTodoById returns an Item with that
  id which is itself in the listing (never the not-found \<open>None\<close>). On Redis an index entry
  whose hash is missing contributes nothing to the listing, and the listing still
  returns normally.
\<close>

theorem list_get_consistent:
  assumes "backend_available s0"
    and "useRedis s0 \<longrightarrow> redis_inv (client (redisService s0))"
  shows "\<exists>ts s'. TodoService_getAllTodos (run s0 ops) = Inr (ts, s')
           \<and> (\<forall>t\<in>set ts. \<exists>t'. TodoService_getTodoById s' (id_t t) = Inr (Some t')
                                \<and> id_t t' = id_t t \<and> t' \<in> set ts)
           \<and> (useRedis s0 \<longrightarrow>
                (\<forall>i\<in>set (todos_all (client (redisService s'))).
                   hashes (client (redisService s')) (TODO_PREFIX @ i) = None
                   \<longrightarrow> i \<notin> id_t ` set ts))"
proof (cases "useRedis s0")
  case False
  then have "\<not> useRedis (run s0 ops)"
    by (simp add: useRedis_run)
  from list_then_get_volatile[OF this] False show ?thesis
    by simp
next
  case True
  let ?s = "run s0 ops"
  have u: "useRedis ?s"
    using True by (simp add: useRedis_run)
  have "backend_available ?s"
    using assms(1) by (simp add: backend_available_run)
  with u have c: "isConnected (redisService ?s)"
    by (simp add: backend_available_def)
  have i: "redis_inv (client (redisService ?s))"
    using assms(2) True by (simp add: inv_run)
  from list_then_get_redis[OF u c i] obtain ts where
    ts: "TodoService_getAllTodos ?s = Inr (ts, ?s)"
      "\<forall>t\<in>set ts. TodoService_getTodoById ?s (id_t t) = Inr (Some t)"
      "\<forall>i\<in>set (todos_all (client (redisService ?s))).
         hashes (client (redisService ?s)) (TODO_PREFIX @ i) = None \<longrightarrow> i \<notin> id_t ` set ts"
    by blast
  show ?thesis
    using ts by (intro exI[of _ ts] exI[of _ ?s]) auto
qed

theorem list_get_consistent_witness:
  "backend_available demo_desync
   \<and> useRedis demo_desync \<and> redis_inv (client (redisService demo_desync))
   \<and> ''ghost'' \<in> set (todos_all (client (redisService (run demo_desync [Delete ''s1'']))))
   \<and> (\<exists>ts s'. TodoService_getAllTodos (run demo_desync [Delete ''s1'']) = Inr (ts, s')
           \<and> (\<forall>t\<in>set ts. \<exists>t'. TodoService_getTodoById s' (id_t t) = Inr (Some t')
                                \<and> id_t t' = id_t t \<and> t' \<in> set ts)
           \<and> (\<forall>i\<in>set (todos_all (client (redisService s'))).
                   hashes (client (redisService s')) (TODO_PREFIX @ i) = None
                   \<longrightarrow> i \<notin> id_t ` set ts))"
proof -
  have a: "backend_available demo_desync"
    by (simp add: demo_desync_def backend_available_def eval_defs)
  have u: "useRedis demo_desync"
    by (simp add: demo_desync_def eval_defs)
  have i: "redis_inv (client (redisService demo_desync))"
    by (simp add: demo_desync_def redis_inv_def eval_defs)
  then have b: "useRedis demo_desync \<longrightarrow> redis_inv (client (redisService demo_desync))"
    by simp
  have g: "''ghost'' \<in> set (todos_all (client (redisService (run demo_desync [Delete ''s1'']))))"
    by (simp add: demo_desync_def eval_defs)
  from list_get_consistent[OF a b, of "[Delete ''s1'']"] a u i g show ?thesis
    by blast
qed

subsection \<open>C4: deleting twice\<close>



subsection \<open>C5: update touches only the fields it is given\<close>

text \<open>
  Claim C5. For an existing Item \<open>t\<close> (getTodoById returns it), updateTodo with a partial
  \<open>u\<close> succeeds on either backend and returns the Item that getTodoById returns from then
  on: its text is the text of \<open>u\<close> when \<open>u\<close> has one and the old text otherwise, its
  completed flag is that of \<open>u\<close> when \<open>u\<close> has one and the old flag otherwise, and id and
  createdAt are unchanged. In particular, creating an Item with some text under a new
  non-empty id and updating it with \<^verbatim>\<open>{completed: true}\<close> gives an Item with that
  text and completed true.
\<close>

theorem update_partial:
  "(TodoService_getTodoById s i = Inr (Some t) \<longrightarrow>
      (\<exists>t' s1. TodoService_updateTodo s i u now = Inr (Some t', s1)
         \<and> TodoService_getTodoById s1 i = Inr (Some t')
         \<and> id_t t' = id_t t \<and> createdAt t' = createdAt t
         \<and> text_t t' = (case u_text u of Some x \<Rightarrow> x | None \<Rightarrow> text_t t)
         \<and> completed t' = (case u_completed u of Some c \<Rightarrow> c | None \<Rightarrow> completed t)))
   \<and> (backend_available s \<and> uuid \<noteq> [] \<and> TodoService_getTodoById s uuid = Inr None \<longrightarrow>
      (\<exists>s1 t2 s2.
         TodoService_createTodo s (newTodo uuid txt c0) = Inr (newTodo uuid txt c0, s1)
         \<and> TodoService_updateTodo s1 uuid \<lparr>u_text = None, u_completed = Some True\<rparr> now
             = Inr (Some t2, s2)
         \<and> TodoService_getTodoById s2 uuid = Inr (Some t2)
         \<and> text_t t2 = txt \<and> completed t2))"
proof (intro conjI impI)
  assume g: "TodoService_getTodoById s i = Inr (Some t)"
  from update_existing[OF g, of u now] obtain s1 where
    "TodoService_updateTodo s i u now = Inr (Some (apply_updates t u now), s1)"
    "TodoService_getTodoById s1 i = Inr (Some (apply_updates t u now))"
    by blast
  then show "\<exists>t' s1. TodoService_updateTodo s i u now = Inr (Some t', s1)
         \<and> TodoService_getTodoById s1 i = Inr (Some t')
         \<and> id_t t' = id_t t \<and> createdAt t' = createdAt t
         \<and> text_t t' = (case u_text u of Some x \<Rightarrow> x | None \<Rightarrow> text_t t)
         \<and> completed t' = (case u_completed u of Some c \<Rightarrow> c | None \<Rightarrow> completed t)"
    by (intro exI[of _ "apply_updates t u now"] exI[of _ s1])
       (simp add: apply_updates_def Let_def split: option.splits)
next
  let ?u = "\<lparr>u_text = None, u_completed = Some True\<rparr>"
  assume "backend_available s \<and> uuid \<noteq> [] \<and> TodoService_getTodoById s uuid = Inr None"
  then have a: "backend_available s" "uuid \<noteq> []" "TodoService_getTodoById s uuid = Inr None"
    by simp_all
  from create_then_get[OF a, of "txt" c0] obtain s1 t1 where
    s1: "TodoService_createTodo s (newTodo uuid txt c0) = Inr (newTodo uuid txt c0, s1)"
      "TodoService_getTodoById s1 uuid = Inr (Some t1)" "text_t t1 = txt"
    by blast
  from update_existing[OF s1(2), of ?u now] obtain s2 where
    s2: "TodoService_updateTodo s1 uuid ?u now = Inr (Some (apply_updates t1 ?u now), s2)"
      "TodoService_getTodoById s2 uuid = Inr (Some (apply_updates t1 ?u now))"
    by blast
  have "text_t (apply_updates t1 ?u now) = txt \<and> completed (apply_updates t1 ?u now)"
    using s1(3) by (simp add: apply_updates_def Let_def)
  with s1(1) s2 show "\<exists>s1 t2 s2.
         TodoService_createTodo s (newTodo uuid txt c0) = Inr (newTodo uuid txt c0, s1)
         \<and> TodoService_updateTodo s1 uuid ?u now = Inr (Some t2, s2)
         \<and> TodoService_getTodoById s2 uuid = Inr (Some t2)
         \<and> text_t t2 = txt \<and> completed t2"
    by blast
qed

theorem update_partial_witness:
  "TodoService_getTodoById demo_volatile ''s2''
     = Inr (Some \<lparr>id_t = ''s2'', text_t = ''Set up CI/CD pipeline'', completed = True,
                  createdAt = 10, updatedAt = None\<rparr>)
   \<and> (\<exists>t' s1. TodoService_updateTodo demo_volatile ''s2''
                  \<lparr>u_text = Some ''Ship it'', u_completed = None\<rparr> 40 = Inr (Some t', s1)
           \<and> TodoService_getTodoById s1 ''s2'' = Inr (Some t')
           \<and> id_t t' = ''s2'' \<and> createdAt t' = 10 \<and> text_t t' = ''Ship it'' \<and> completed t')
   \<and> backend_available demo_durable \<and> ''a'' \<noteq> []
   \<and> TodoService_getTodoById demo_durable ''a'' = Inr None
   \<and> (\<exists>s1 t2 s2.
         TodoService_createTodo demo_durable (newTodo ''a'' ''A'' 30)
           = Inr (newTodo ''a'' ''A'' 30, s1)
         \<and> TodoService_updateTodo s1 ''a'' \<lparr>u_text = None, u_completed = Some True\<rparr> 40
             = Inr (Some t2, s2)
         \<and> TodoService_getTodoById s2 ''a'' = Inr (Some t2)
         \<and> text_t t2 = ''A'' \<and> completed t2)"
proof -
  have a: "TodoService_getTodoById demo_volatile ''s2''
     = Inr (Some \<lparr>id_t = ''s2'', text_t = ''Set up CI/CD pipeline'', completed = True,
                  createdAt = 10, updatedAt = None\<rparr>)"
    by (simp add: demo_volatile_def eval_defs)
  have b: "backend_available demo_durable"
    by (simp add: demo_durable_def backend_available_def eval_defs)
  have c: "''a'' \<noteq> []"
    by simp
  have d: "TodoService_getTodoById demo_durable ''a'' = Inr None"
    by (simp add: demo_durable_def eval_defs)
  note th = update_partial[of demo_volatile "''s2''"
      "\<lparr>id_t = ''s2'', text_t = ''Set up CI/CD pipeline'', completed = True,
        createdAt = 10, updatedAt = None\<rparr>"
      "\<lparr>u_text = Some ''Ship it'', u_completed = None\<rparr>" 40]
  have "\<exists>t' s1. TodoService_updateTodo demo_volatile ''s2''
                  \<lparr>u_text = Some ''Ship it'', u_completed = None\<rparr> 40 = Inr (Some t', s1)
           \<and> TodoService_getTodoById s1 ''s2'' = Inr (Some t')
           \<and> id_t t' = ''s2'' \<and> createdAt t' = 10 \<and> text_t t' = ''Ship it'' \<and> completed t'"
    using th[THEN conjunct1, THEN mp, OF a] by simp
  moreover have "\<exists>s1 t2 s2.
         TodoService_createTodo demo_durable (newTodo ''a'' ''A'' 30)
           = Inr (newTodo ''a'' ''A'' 30, s1)
         \<and> TodoService_updateTodo s1 ''a'' \<lparr>u_text = None, u_completed = Some True\<rparr> 40
             = Inr (Some t2, s2)
         \<and> TodoService_getTodoById s2 ''a'' = Inr (Some t2)
         \<and> text_t t2 = ''A'' \<and> completed t2"
    using update_partial[of demo_durable _ _ _ 40 "''a''" "''A''" 30, THEN conjunct2, THEN mp]
      b c d
    by blast
  ultimately show ?thesis
    using a b c d by blast
qed

subsection \<open>C6: create, then get\<close>

text \<open>
  Claim C6. On either backend, when it is available: creating the Item the POST handler
  builds for a text \<open>txt\<close> (with a non-empty id that is not in the dataset yet, as
  \<^verbatim>\<open>uuidv4()\<close> provides) returns that Item, and getTodoById on its id then returns an Item
  with text \<open>txt\<close>, completed false and the createdAt it was created with. No condition on
  \<open>txt\<close> is needed.
\<close>

theorem create_get_roundtrip:
  assumes "backend_available s" and "uuid \<noteq> []"
    and "TodoService_getTodoById s uuid = Inr None"
  shows "\<exists>s1 t. TodoService_createTodo s (newTodo uuid txt now) = Inr (newTodo uuid txt now, s1)
           \<and> TodoService_getTodoById s1 uuid = Inr (Some t)
           \<and> id_t t = uuid \<and> text_t t = txt \<and> \<not> completed t \<and> createdAt t = now"
  using assms by (rule create_then_get)

theorem create_get_roundtrip_witness:
  "backend_available demo_durable \<and> ''a'' \<noteq> []
   \<and> TodoService_getTodoById demo_durable ''a'' = Inr None
   \<and> (\<exists>s1 t. TodoService_createTodo demo_durable (newTodo ''a'' ''buy milk'' 30)
                 = Inr (newTodo ''a'' ''buy milk'' 30, s1)
           \<and> TodoService_getTodoById s1 ''a'' = Inr (Some t)
           \<and> id_t t = ''a'' \<and> text_t t = ''buy milk'' \<and> \<not> completed t \<and> createdAt t = 30)"
proof -
  have a: "backend_available demo_durable"
    by (simp add: demo_durable_def backend_available_def eval_defs)
  have b: "''a'' \<noteq> []"
    by simp
  have c: "TodoService_getTodoById demo_durable ''a'' = Inr None"
    by (simp add: demo_durable_def eval_defs)
  from create_get_roundtrip[OF a b c, of "''buy milk''" 30] a c show ?thesis
    by simp
qed

subsection \<open>C7: newest first\<close>

text \<open>
  Claim C7. On either backend, when it is available, the listing is ordered by createdAt
  descending and leaves no Item out: in memory it is a permutation of the stored list,
  on Redis it holds the Item of every index entry that getTodoById finds. Starting from
  an empty dataset and creating A, B, C with strictly increasing createdAt (ids
  non-empty and pairwise different), the listing is C, B, A: exactly so in memory, and
  up to the \<^verbatim>\<open>updatedAt\<close> field, which the Redis reader fills in, on Redis.
\<close>

theorem listing_newest_first:
  assumes "backend_available s"
  shows "(\<exists>ts s'. TodoService_getAllTodos s = Inr (ts, s')
            \<and> sorted_wrt (\<lambda>a b. createdAt b \<le> createdAt a) ts
            \<and> (\<not> useRedis s \<longrightarrow> mset ts = mset (inMemoryTodos s))
            \<and> (useRedis s \<longrightarrow>
                 (\<forall>i\<in>set (todos_all (client (redisService s))).
                    \<forall>t. TodoService_getTodoById s i = Inr (Some t) \<longrightarrow> t \<in> set ts)))
         \<and> ((if useRedis s then todos_all (client (redisService s)) = []
               else inMemoryTodos s = [])
              \<and> createdAt A < createdAt B \<and> createdAt B < createdAt C
              \<and> distinct [id_t A, id_t B, id_t C] \<and> [] \<notin> set [id_t A, id_t B, id_t C]
             \<longrightarrow> (\<exists>ts s'. TodoService_getAllTodos (run s [Create A, Create B, Create C])
                            = Inr (ts, s')
                     \<and> map (\<lambda>t. t\<lparr>updatedAt := None\<rparr>) ts
                         = map (\<lambda>t. t\<lparr>updatedAt := None\<rparr>) [C, B, A]
                     \<and> (\<not> useRedis s \<longrightarrow> ts = [C, B, A])))"
proof (cases "useRedis s")
  case True
  with assms have c: "isConnected (redisService s)"
    by (simp add: backend_available_def)
  from list_sorted_all[OF assms] abc_redis[OF True c, of A B C] True show ?thesis
    by auto
next
  case False
  from list_sorted_all[OF assms] abc_volatile[OF False, of A B C] False show ?thesis
    by auto
qed

theorem listing_newest_first_witness:
  "backend_available (run demo_durable [Delete ''s1'', Delete ''s2''])
   \<and> useRedis (run demo_durable [Delete ''s1'', Delete ''s2''])
   \<and> todos_all (client (redisService (run demo_durable [Delete ''s1'', Delete ''s2'']))) = []
   \<and> createdAt (newTodo ''a'' ''A'' 31) < createdAt (newTodo ''b'' ''B'' 32)
   \<and> createdAt (newTodo ''b'' ''B'' 32) < createdAt (newTodo ''c'' ''C'' 33)
   \<and> distinct [''a'', ''b'', ''c''] \<and> [] \<notin> set [''a'', ''b'', ''c'']
   \<and> (\<exists>ts s'. TodoService_getAllTodos
                  (run (run demo_durable [Delete ''s1'', Delete ''s2''])
                     [Create (newTodo ''a'' ''A'' 31), Create (newTodo ''b'' ''B'' 32),
                      Create (newTodo ''c'' ''C'' 33)]) = Inr (ts, s')
           \<and> map (\<lambda>t. t\<lparr>updatedAt := None\<rparr>) ts
               = [newTodo ''c'' ''C'' 33, newTodo ''b'' ''B'' 32, newTodo ''a'' ''A'' 31])"
proof -
  let ?s = "run demo_durable [Delete ''s1'', Delete ''s2'']"
  have a: "backend_available ?s"
    by (simp add: demo_durable_def backend_available_def eval_defs)
  have e: "useRedis ?s" "todos_all (client (redisService ?s)) = []"
    by (simp_all add: demo_durable_def eval_defs)
  then have b: "(if useRedis ?s then todos_all (client (redisService ?s)) = []
            else inMemoryTodos ?s = [])"
    by simp
  have c: "createdAt (newTodo ''a'' ''A'' 31) < createdAt (newTodo ''b'' ''B'' 32)"
      "createdAt (newTodo ''b'' ''B'' 32) < createdAt (newTodo ''c'' ''C'' 33)"
      "distinct [''a'', ''b'', ''c'']" "[] \<notin> set [''a'', ''b'', ''c'']"
    by (simp_all add: newTodo_def)
  have d: "distinct [id_t (newTodo ''a'' ''A'' 31), id_t (newTodo ''b'' ''B'' 32),
                     id_t (newTodo ''c'' ''C'' 33)]"
      "[] \<notin> set [id_t (newTodo ''a'' ''A'' 31), id_t (newTodo ''b'' ''B'' 32),
                   id_t (newTodo ''c'' ''C'' 33)]"
    by (simp_all add: newTodo_def)
  from listing_newest_first[OF a, of "newTodo ''a'' ''A'' 31" "newTodo ''b'' ''B'' 32"
      "newTodo ''c'' ''C'' 33"] b c(1,2) d
  have "\<exists>ts s'. TodoService_getAllTodos
                  (run ?s [Create (newTodo ''a'' ''A'' 31), Create (newTodo ''b'' ''B'' 32),
                      Create (newTodo ''c'' ''C'' 33)]) = Inr (ts, s')
           \<and> map (\<lambda>t. t\<lparr>updatedAt := None\<rparr>) ts
               = map (\<lambda>t. t\<lparr>updatedAt := None\<rparr>)
                   [newTodo ''c'' ''C'' 33, newTodo ''b'' ''B'' 32, newTodo ''a'' ''A'' 31]"
    by blast
  then have "\<exists>ts s'. TodoService_getAllTodos
                  (run ?s [Create (newTodo ''a'' ''A'' 31), Create (newTodo ''b'' ''B'' 32),
                      Create (newTodo ''c'' ''C'' 33)]) = Inr (ts, s')
           \<and> map (\<lambda>t. t\<lparr>updatedAt := None\<rparr>) ts
               = [newTodo ''c'' ''C'' 33, newTodo ''b'' ''B'' 32, newTodo ''a'' ''A'' 31]"
    by (simp add: newTodo_def)
  with a e c show ?thesis
    by blast
qed

subsection \<open>C8: the three counts agree\<close>

text \<open>
  Claim C8. On either backend, when it is available: after any sequence of create,
  update, delete and list operations getStats returns the counts of the dataset as
  getAllTodos lists it at that moment (in memory a permutation of the stored list):
  total is the number of listed Items, completed the number of those with the completed
  flag, pending the number of those without. Hence completed + pending = total.
\<close>

theorem stats_consistent:
  assumes "backend_available s"
  shows "\<exists>st ts s'. TodoService_getStats (run s ops) = Inr st
           \<and> TodoService_getAllTodos (run s ops) = Inr (ts, s')
           \<and> (\<not> useRedis s \<longrightarrow> mset ts = mset (inMemoryTodos (run s ops)))
           \<and> total st = length ts
           \<and> completed_s st = length (filter (\<lambda>t. completed t) ts)
           \<and> pending st = length (filter (\<lambda>t. \<not> completed t) ts)
           \<and> completed_s st + pending st = total st"
proof -
  from assms have "backend_available (run s ops)"
    by (simp add: backend_available_run)
  from stats_of_listing[OF this] obtain ts s' where
    l: "TodoService_getAllTodos (run s ops) = Inr (ts, s')"
      "TodoService_getStats (run s ops) = Inr (stats_of ts)"
      "\<not> useRedis (run s ops) \<longrightarrow> mset ts = mset (inMemoryTodos (run s ops))"
    by blast
  have "total (stats_of ts) = length ts"
      "completed_s (stats_of ts) = length (filter (\<lambda>t. completed t) ts)"
      "pending (stats_of ts) = length (filter (\<lambda>t. \<not> completed t) ts)"
    by (simp_all add: stats_of_def)
  with l stats_of_sum[of ts] show ?thesis
    by (intro exI[of _ "stats_of ts"] exI[of _ ts] exI[of _ s']) (simp add: useRedis_run)
qed

theorem stats_consistent_witness:
  "backend_available demo_durable
   \<and> TodoService_getStats
        (run demo_durable
           [Create (newTodo ''a'' ''A'' 30),
            Update ''a'' \<lparr>u_text = None, u_completed = Some True\<rparr> 40,
            Create (newTodo ''b'' ''B'' 50),
            Delete ''s2'']) = Inr \<lparr>total = 3, completed_s = 1, pending = 2\<rparr>
   \<and> (\<exists>st ts s'. TodoService_getStats
              (run demo_durable
                 [Create (newTodo ''a'' ''A'' 30),
                  Update ''a'' \<lparr>u_text = None, u_completed = Some True\<rparr> 40,
                  Create (newTodo ''b'' ''B'' 50),
                  Delete ''s2'']) = Inr st
            \<and> TodoService_getAllTodos
              (run demo_durable
                 [Create (newTodo ''a'' ''A'' 30),
                  Update ''a'' \<lparr>u_text = None, u_completed = Some True\<rparr> 40,
                  Create (newTodo ''b'' ''B'' 50),
                  Delete ''s2'']) = Inr (ts, s')
            \<and> total st = length ts
            \<and> completed_s st = length (filter (\<lambda>t. completed t) ts)
            \<and> pending st = length (filter (\<lambda>t. \<not> completed t) ts)
            \<and> completed_s st + pending st = total st)"
proof -
  have a: "backend_available demo_durable"
    by (simp add: demo_durable_def backend_available_def eval_defs)
  have b: "TodoService_getStats
        (run demo_durable
           [Create (newTodo ''a'' ''A'' 30),
            Update ''a'' \<lparr>u_text = None, u_completed = Some True\<rparr> 40,
            Create (newTodo ''b'' ''B'' 50),
            Delete ''s2'']) = Inr \<lparr>total = 3, completed_s = 1, pending = 2\<rparr>"
    by (simp add: demo_durable_def newTodo_def eval_defs)
  from stats_consistent[OF a] a b show ?thesis
    by blast
qed

subsection \<open>C9: no id twice\<close>

text \<open>
  Claim C9, as the code has it. Neither backend checks the id it is handed. In memory,
  as long as the ids handed to createTodo differ from one another and from the ids
  already stored, no state reached by create, update, delete and list operations lists
  an id twice. On Redis, where a hash sits under the key of its id and a second create
  with the same id overwrites it, the listing never shows an id twice.
\<close>

theorem ids_unique_given_fresh:
  assumes "backend_available s0"
    and "if useRedis s0 then redis_inv (client (redisService s0))
         else distinct (map id_t (inMemoryTodos s0) @ created_ids ops)"
  shows "\<exists>ts s'. TodoService_getAllTodos (run s0 ops) = Inr (ts, s') \<and> distinct (map id_t ts)"
proof (cases "useRedis s0")
  case True
  let ?s = "run s0 ops"
  have u: "useRedis ?s"
    using True by (simp add: useRedis_run)
  have "backend_available ?s"
    using assms(1) by (simp add: backend_available_run)
  with u have c: "isConnected (redisService ?s)"
    by (simp add: backend_available_def)
  have "redis_inv (client (redisService ?s))"
    using assms(2) True by (simp add: inv_run)
  from list_ids_distinct_redis[OF u c this] show ?thesis
    by blast
next
  case False
  let ?s = "run s0 ops"
  have u: "\<not> useRedis ?s"
    using False by (simp add: useRedis_run)
  have "distinct (map id_t (inMemoryTodos ?s))"
    using run_distinct_volatile[OF False] assms(2) False by simp
  then have "distinct (map id_t (js_sort newest_first (inMemoryTodos ?s)))"
    by (simp add: distinct_map_js_sort)
  with u show ?thesis
    by (simp add: TodoService_getAllTodos_def Let_def)
qed

theorem ids_unique_given_fresh_witness:
  "backend_available demo_volatile
   \<and> \<not> useRedis demo_volatile
   \<and> distinct (map id_t (inMemoryTodos demo_volatile)
              @ created_ids [Create (newTodo ''a'' ''A'' 30), Delete ''a'', ListAll,
                             Create (newTodo ''b'' ''B'' 31)])
   \<and> (\<exists>ts s'. TodoService_getAllTodos
                  (run demo_volatile [Create (newTodo ''a'' ''A'' 30), Delete ''a'', ListAll,
                                      Create (newTodo ''b'' ''B'' 31)]) = Inr (ts, s')
           \<and> distinct (map id_t ts))"
proof -
  have a: "backend_available demo_volatile"
    by (simp add: demo_volatile_def backend_available_def eval_defs)
  have u: "\<not> useRedis demo_volatile"
    by (simp add: demo_volatile_def eval_defs)
  have d: "distinct (map id_t (inMemoryTodos demo_volatile)
              @ created_ids [Create (newTodo ''a'' ''A'' 30), Delete ''a'', ListAll,
                             Create (newTodo ''b'' ''B'' 31)])"
    by (simp add: demo_volatile_def newTodo_def eval_defs)
  with u have b: "if useRedis demo_volatile then redis_inv (client (redisService demo_volatile))
       else distinct (map id_t (inMemoryTodos demo_volatile)
              @ created_ids [Create (newTodo ''a'' ''A'' 30), Delete ''a'', ListAll,
                             Create (newTodo ''b'' ''B'' 31)])"
    by simp
  from ids_unique_given_fresh[OF a b] a u d show ?thesis
    by blast
qed

text \<open>
  Handing the in-memory backend the same id twice stores two Items with that id, and on
  both backends an id that was deleted is accepted again by a later create.
\<close>

theorem ids_unique_counterexample:
  "map_sum id (map id_t \<circ> fst) (TodoService_getAllTodos (run demo_volatile
       [Create (newTodo ''a'' ''A'' 30), Create (newTodo ''a'' ''B'' 31)]))
     = Inr [''a'', ''a'', ''s1'', ''s2'']
   \<and> TodoService_getTodoById (run demo_volatile
       [Create (newTodo ''a'' ''A'' 30), Delete ''a'', Create (newTodo ''a'' ''B'' 31)]) ''a''
     = Inr (Some (newTodo ''a'' ''B'' 31))
   \<and> TodoService_getTodoById (run demo_durable
       [Create (newTodo ''a'' ''A'' 30), Delete ''a'', Create (newTodo ''a'' ''B'' 31)]) ''a''
     = Inr (Some ((newTodo ''a'' ''B'' 31)\<lparr>updatedAt := Some 31\<rparr>))"
  by (simp add: demo_volatile_def demo_durable_def newTodo_def eval_defs)

subsection \<open>C10: update does not validate the text\<close>

text \<open>
  Claim C10. For an existing id and any string \<open>txt\<close>, the empty string included,
  updateTodo with \<^verbatim>\<open>{text: txt}\<close> succeeds on either backend, returns the updated Item
  with text \<open>txt\<close>, and getTodoById returns that Item afterwards.
\<close>

theorem update_text_unvalidated:
  assumes "TodoService_getTodoById s i = Inr (Some t)"
  shows "\<exists>t' s1. TodoService_updateTodo s i \<lparr>u_text = Some txt, u_completed = None\<rparr> now
                     = Inr (Some t', s1)
           \<and> text_t t' = txt
           \<and> TodoService_getTodoById s1 i = Inr (Some t')"
proof -
  let ?u = "\<lparr>u_text = Some txt, u_completed = None\<rparr>"
  from update_existing[OF assms, of ?u now] obtain s1 where
    "TodoService_updateTodo s i ?u now = Inr (Some (apply_updates t ?u now), s1)"
    "TodoService_getTodoById s1 i = Inr (Some (apply_updates t ?u now))"
    by blast
  then show ?thesis
    by (intro exI[of _ "apply_updates t ?u now"] exI[of _ s1])
       (simp add: apply_updates_def Let_def)
qed

theorem update_text_unvalidated_witness:
  "TodoService_getTodoById demo_volatile ''s1''
     = Inr (Some \<lparr>id_t = ''s1'', text_t = ''Welcome to your DevOps To-Do App!'',
                  completed = False, createdAt = 10, updatedAt = None\<rparr>)
   \<and> (\<exists>t' s1. TodoService_updateTodo demo_volatile ''s1''
                  \<lparr>u_text = Some [], u_completed = None\<rparr> 40 = Inr (Some t', s1)
           \<and> text_t t' = []
           \<and> TodoService_getTodoById s1 ''s1'' = Inr (Some t'))"
proof -
  have a: "TodoService_getTodoById demo_volatile ''s1''
     = Inr (Some \<lparr>id_t = ''s1'', text_t = ''Welcome to your DevOps To-Do App!'',
                  completed = False, createdAt = 10, updatedAt = None\<rparr>)"
    by (simp add: demo_volatile_def eval_defs)
  from update_text_unvalidated[OF a, of "[]" 40] a show ?thesis
    by simp
qed

end
